theory Spec2Isabelle
  imports Complex_Main "HOL-Library.Word" "HOL-Library.Log_Nat" "HOL-Library.Multiset"
begin

section \<open>Floating-point values and arithmetic\<close>

text \<open>
  The kernels compute on C++ \<^verbatim>\<open>float\<close> and \<^verbatim>\<open>double\<close>. A value is a NaN, a signed
  infinity, or a finite number given by its sign (\<open>True\<close> is negative) and its magnitude,
  a non-negative rational; \<open>FNum True 0\<close> is the negative zero. All NaNs are one value:
  payloads are not modelled.
\<close>

datatype fp = FNaN | FInf bool | FNum bool rat

text \<open>
  A format \<open>Binary p el eh\<close> has \<open>p\<close> significand bits and unit-in-the-last-place
  exponents from \<open>el\<close> to \<open>eh\<close>: its finite magnitudes are \<open>m * 2^e\<close> with \<open>m < 2^p\<close>
  and \<open>el \<le> e \<le> eh\<close>. \<open>Exact\<close> is arithmetic without rounding and without overflow,
  used to state what a kernel computes in exact rational arithmetic.
\<close>

datatype format = Binary nat int int | Exact

definition binary32 :: format where
  "binary32 = Binary 24 (- 149) 104"

definition binary64 :: format where
  "binary64 = Binary 53 (- 1074) 971"

text \<open>Powers of two with an integer exponent.\<close>

definition pow2 :: "int \<Rightarrow> rat" where
  "pow2 k = 2 powi k"

text \<open>\<open>ilog2 a\<close> is the integer \<open>k\<close> with \<open>2^k \<le> a < 2^(k+1)\<close>, for \<open>a > 0\<close>.\<close>

definition ilog2 :: "rat \<Rightarrow> int" where
  "ilog2 a = (let k = bitlen (fst (quotient_of a)) - bitlen (snd (quotient_of a))
              in if pow2 k \<le> a then k else k - 1)"

text \<open>Rounding a non-negative rational to the nearest integer, ties to even.\<close>

definition rne :: "rat \<Rightarrow> int" where
  "rne q = (let n = \<lfloor>q\<rfloor>; f = q - of_int n
            in if f < 1 / 2 then n
               else if 1 / 2 < f then n + 1
               else if even n then n else n + 1)"

text \<open>
  Round-to-nearest-even of a magnitude: the quantum is the unit in the last place of
  the binade of \<open>a\<close>, not below \<open>2^el\<close> (subnormal range); \<open>None\<close> is overflow.
\<close>

fun round_mag :: "format \<Rightarrow> rat \<Rightarrow> rat option" where
  "round_mag Exact a = Some a"
| "round_mag (Binary p el eh) a =
     (let e = max el (ilog2 a - (int p - 1));
          r = of_int (rne (a / pow2 e)) * pow2 e
      in if r < pow2 (eh + int p) then Some r else None)"

definition fround :: "format \<Rightarrow> bool \<Rightarrow> rat \<Rightarrow> fp" where
  "fround F s a = (case round_mag F a of None \<Rightarrow> FInf s | Some r \<Rightarrow> FNum s r)"

definition sval :: "bool \<Rightarrow> rat \<Rightarrow> rat" where
  "sval s a = (if s then - a else a)"

fun fval :: "fp \<Rightarrow> rat" where
  "fval (FNum s a) = sval s a"
| "fval _ = 0"

fun is_finite :: "fp \<Rightarrow> bool" where
  "is_finite (FNum s a) = True"
| "is_finite _ = False"

text \<open>The values of a format: a finite one has a magnitude that rounding leaves alone.\<close>

fun is_fp :: "format \<Rightarrow> fp \<Rightarrow> bool" where
  "is_fp F (FNum s a) = (0 \<le> a \<and> round_mag F a = Some a)"
| "is_fp F _ = True"

definition f_zero :: fp where
  "f_zero = FNum False 0"

definition f_one :: fp where
  "f_one = FNum False 1"

fun fadd :: "format \<Rightarrow> fp \<Rightarrow> fp \<Rightarrow> fp" where
  "fadd F (FNum s a) (FNum t b) =
     (let r = sval s a + sval t b
      in if r = 0 then FNum (s \<and> t) 0 else fround F (r < 0) \<bar>r\<bar>)"
| "fadd F (FNum s a) (FInf t) = FInf t"
| "fadd F (FInf s) (FNum t b) = FInf s"
| "fadd F (FInf s) (FInf t) = (if s = t then FInf s else FNaN)"
| "fadd F FNaN y = FNaN"
| "fadd F x FNaN = FNaN"

fun fmul :: "format \<Rightarrow> fp \<Rightarrow> fp \<Rightarrow> fp" where
  "fmul F (FNum s a) (FNum t b) = fround F (s \<noteq> t) (a * b)"
| "fmul F (FNum s a) (FInf t) = (if a = 0 then FNaN else FInf (s \<noteq> t))"
| "fmul F (FInf s) (FNum t b) = (if b = 0 then FNaN else FInf (s \<noteq> t))"
| "fmul F (FInf s) (FInf t) = FInf (s \<noteq> t)"
| "fmul F FNaN y = FNaN"
| "fmul F x FNaN = FNaN"

text \<open>The comparisons \<^verbatim>\<open>>=\<close> and \<^verbatim>\<open><\<close>: false when an operand is a NaN.\<close>

fun fge :: "fp \<Rightarrow> fp \<Rightarrow> bool" where
  "fge (FNum s a) (FNum t b) = (sval t b \<le> sval s a)"
| "fge (FNum s a) (FInf t) = t"
| "fge (FInf s) (FNum t b) = (\<not> s)"
| "fge (FInf s) (FInf t) = (\<not> s \<or> t)"
| "fge FNaN y = False"
| "fge x FNaN = False"

fun flt :: "fp \<Rightarrow> fp \<Rightarrow> bool" where
  "flt (FNum s a) (FNum t b) = (sval s a < sval t b)"
| "flt (FNum s a) (FInf t) = (\<not> t)"
| "flt (FInf s) (FNum t b) = s"
| "flt (FInf s) (FInf t) = (s \<and> \<not> t)"
| "flt FNaN y = False"
| "flt x FNaN = False"

text \<open>\<^verbatim>\<open>MINPS\<close> on one lane: the first operand if it is less, else the second.\<close>

definition fmin :: "fp \<Rightarrow> fp \<Rightarrow> fp" where
  "fmin a b = (if flt a b then a else b)"

text \<open>Conversion between formats (\<^verbatim>\<open>float\<close> to \<^verbatim>\<open>double\<close> and back) and from an integer.\<close>

fun fcvt :: "format \<Rightarrow> fp \<Rightarrow> fp" where
  "fcvt F (FNum s a) = fround F s a"
| "fcvt F x = x"

definition fcvt_int :: "format \<Rightarrow> int \<Rightarrow> fp" where
  "fcvt_int F n = fround F (n < 0) (of_int \<bar>n\<bar>)"


section \<open>The data view and the scalar reducer\<close>

text \<open>
  \<^verbatim>\<open>struct UsersView\<close>: three borrowed parallel arrays and their shared length. The
  arrays are lists; the kernels read indices below \<open>Count\<close> only.
\<close>

record UsersView =
  Ids :: "32 word list"
  Balances :: "fp list"
  Active :: "8 word list"
  Count :: nat

text \<open>
  The view invariant of the data model: the three arrays have \<open>Count\<close> elements, and
  every balance is a \<^verbatim>\<open>float\<close>.
\<close>

definition wf_view :: "UsersView \<Rightarrow> bool" where
  "wf_view v \<longleftrightarrow>
     length (Ids v) = Count v \<and> length (Balances v) = Count v \<and>
     length (Active v) = Count v \<and> list_all (is_fp binary32) (Balances v)"

text \<open>
  One iteration of the loop of \<^verbatim>\<open>SumActiveBalancesScalar\<close>: the multiplier is
  \<^verbatim>\<open>1.0f\<close> or \<^verbatim>\<open>0.0f\<close>, and the product is added whatever the multiplier. The
  arithmetic is in the format \<open>F\<close>, which is \<open>binary32\<close> in the program.
\<close>

definition scalar_step :: "format \<Rightarrow> UsersView \<Rightarrow> fp \<Rightarrow> nat \<Rightarrow> fp \<Rightarrow> fp" where
  "scalar_step F usersView thresholdBalance i accumulatedBalance =
     (let balanceValue = Balances usersView ! i;
          takeValue = (if Active usersView ! i \<noteq> 0 \<and> fge balanceValue thresholdBalance
                       then f_one else f_zero)
      in fadd F accumulatedBalance (fmul F balanceValue takeValue))"

definition SumActiveBalancesScalar_fmt :: "format \<Rightarrow> UsersView \<Rightarrow> fp \<Rightarrow> fp" where
  "SumActiveBalancesScalar_fmt F usersView minimumBalance =
     fold (scalar_step F usersView minimumBalance) [0..<Count usersView] f_zero"

definition SumActiveBalancesScalar :: "UsersView \<Rightarrow> fp \<Rightarrow> fp" where
  "SumActiveBalancesScalar = SumActiveBalancesScalar_fmt binary32"

text \<open>\<^verbatim>\<open>SumActiveBalances\<close> of \<^verbatim>\<open>bench-dod.cpp\<close>: the same loop.\<close>

definition SumActiveBalances_dod :: "UsersView \<Rightarrow> fp \<Rightarrow> fp" where
  "SumActiveBalances_dod usersView minimumBalance =
     fold (scalar_step binary32 usersView minimumBalance) [0..<Count usersView] f_zero"

section \<open>Vector registers and intrinsics\<close>

text \<open>
  A register is the list of its lanes, lane 0 first. A comparison mask is a list of
  booleans: \<open>True\<close> is the lane of all ones, \<open>False\<close> the lane of all zeros.
\<close>

definition mm256_set1_ps :: "fp \<Rightarrow> fp list" where
  "mm256_set1_ps x = replicate 8 x"

definition mm256_setzero_ps :: "fp list" where
  "mm256_setzero_ps = replicate 8 f_zero"

definition mm256_setzero_pd :: "fp list" where
  "mm256_setzero_pd = replicate 4 f_zero"

definition mm256_loadu_ps :: "fp list \<Rightarrow> nat \<Rightarrow> fp list" where
  "mm256_loadu_ps balances i = map (\<lambda>j. balances ! (i + j)) [0..<8]"

definition mm_loadl_epi64 :: "8 word list \<Rightarrow> nat \<Rightarrow> 8 word list" where
  "mm_loadl_epi64 activeFlags i = map (\<lambda>j. activeFlags ! (i + j)) [0..<8]"

definition mm256_cvtepu8_epi32 :: "8 word list \<Rightarrow> 32 word list" where
  "mm256_cvtepu8_epi32 bytes = map ucast bytes"

definition mm256_cvtepi32_ps :: "format \<Rightarrow> 32 word list \<Rightarrow> fp list" where
  "mm256_cvtepi32_ps F ints = map (\<lambda>w. fcvt_int F (sint w)) ints"

definition mm256_min_ps :: "fp list \<Rightarrow> fp list \<Rightarrow> fp list" where
  "mm256_min_ps a b = map2 fmin a b"

definition mm256_cmp_ps_GE_OQ :: "fp list \<Rightarrow> fp list \<Rightarrow> bool list" where
  "mm256_cmp_ps_GE_OQ a b = map2 fge a b"

text \<open>
  The bitwise AND of a comparison mask with a register: all ones keep the lane, all
  zeros give the bit pattern zero, which is \<^verbatim>\<open>+0.0f\<close>.
\<close>

definition mm256_and_ps :: "bool list \<Rightarrow> fp list \<Rightarrow> fp list" where
  "mm256_and_ps cmpMask a = map2 (\<lambda>m x. if m then x else f_zero) cmpMask a"

definition mm256_mul_ps :: "format \<Rightarrow> fp list \<Rightarrow> fp list \<Rightarrow> fp list" where
  "mm256_mul_ps F a b = map2 (fmul F) a b"

definition mm256_add_ps :: "format \<Rightarrow> fp list \<Rightarrow> fp list \<Rightarrow> fp list" where
  "mm256_add_ps F a b = map2 (fadd F) a b"

definition mm256_add_pd :: "format \<Rightarrow> fp list \<Rightarrow> fp list \<Rightarrow> fp list" where
  "mm256_add_pd F a b = map2 (fadd F) a b"

definition mm256_cvtps_pd :: "format \<Rightarrow> fp list \<Rightarrow> fp list" where
  "mm256_cvtps_pd F a = map (fcvt F) a"

text \<open>The low and the high half of a register.\<close>

definition lower_half :: "fp list \<Rightarrow> fp list" where
  "lower_half a = take (length a div 2) a"

definition upper_half :: "fp list \<Rightarrow> fp list" where
  "upper_half a = drop (length a div 2) a"

text \<open>\<^verbatim>\<open>_mm_hadd_ps(a, b)\<close> on four lanes.\<close>

definition mm_hadd_ps :: "format \<Rightarrow> fp list \<Rightarrow> fp list \<Rightarrow> fp list" where
  "mm_hadd_ps F a b =
     [fadd F (a ! 0) (a ! 1), fadd F (a ! 2) (a ! 3),
      fadd F (b ! 0) (b ! 1), fadd F (b ! 2) (b ! 3)]"

text \<open>
  The predicate and the contribution of one group of eight lanes starting at \<open>i\<close>, the
  same in both kernels: the activity bytes are widened, converted and clamped by
  \<^verbatim>\<open>min\<close> with \<open>one\<close>, ANDed with the comparison mask, and multiplied with the
  balances.
\<close>

definition contrib8 :: "format \<Rightarrow> fp list \<Rightarrow> 8 word list \<Rightarrow> fp list \<Rightarrow> fp list \<Rightarrow> nat \<Rightarrow> fp list" where
  "contrib8 F balances activeFlags threshold one i =
     (let b = mm256_loadu_ps balances i;
          bytes = mm_loadl_epi64 activeFlags i;
          ints = mm256_cvtepu8_epi32 bytes;
          activeM = mm256_cvtepi32_ps F ints;
          activeM = mm256_min_ps activeM one;
          cmpMask = mm256_cmp_ps_GE_OQ b threshold;
          take' = mm256_and_ps cmpMask activeM
      in mm256_mul_ps F b take')"

section \<open>The wide-accumulation kernel (\<^verbatim>\<open>bench-dod-avx2-double.cpp\<close>)\<close>

text \<open>
  The body of the main loop: the contribution is split in two halves, each widened to
  \<open>FD\<close> (\<open>binary64\<close> in the program) and added to its accumulator.
\<close>

definition avx2_double_body ::
  "format \<Rightarrow> format \<Rightarrow> fp list \<Rightarrow> 8 word list \<Rightarrow> fp list \<Rightarrow> fp list \<Rightarrow> nat
     \<Rightarrow> fp list \<times> fp list \<Rightarrow> fp list \<times> fp list" where
  "avx2_double_body FS FD balances activeFlags threshold one i acc =
     (let contrib = contrib8 FS balances activeFlags threshold one i;
          low = lower_half contrib;
          high = upper_half contrib
      in (mm256_add_pd FD (fst acc) (mm256_cvtps_pd FD low),
          mm256_add_pd FD (snd acc) (mm256_cvtps_pd FD high)))"

text \<open>The scalar tail: a branch, and an addition in \<open>FD\<close> of the widened balance.\<close>

definition avx2_double_tail :: "format \<Rightarrow> fp list \<Rightarrow> 8 word list \<Rightarrow> fp \<Rightarrow> nat \<Rightarrow> fp \<Rightarrow> fp" where
  "avx2_double_tail FD balances activeFlags minimumBalance i accumulatedBalance =
     (if activeFlags ! i \<noteq> 0 \<and> fge (balances ! i) minimumBalance
      then fadd FD accumulatedBalance (fcvt FD (balances ! i))
      else accumulatedBalance)"

definition SumActiveBalancesAvx2_double_fmt ::
  "format \<Rightarrow> format \<Rightarrow> UsersView \<Rightarrow> fp \<Rightarrow> fp" where
  "SumActiveBalancesAvx2_double_fmt FS FD usersView minimumBalance =
     (let count' = Count usersView;
          balances = Balances usersView;
          activeFlags = Active usersView;
          threshold = mm256_set1_ps minimumBalance;
          one = mm256_set1_ps f_one;
          acc0 = mm256_setzero_pd;
          acc1 = mm256_setzero_pd;
          vectorWidth = 8;
          n8 = (count' div vectorWidth) * vectorWidth;
          (acc0, acc1) =
             fold (avx2_double_body FS FD balances activeFlags threshold one)
               (map (\<lambda>k. k * vectorWidth) [0..<n8 div vectorWidth]) (acc0, acc1);
          acc = mm256_add_pd FD acc0 acc1;
          low = lower_half acc;
          high = upper_half acc;
          sum' = mm256_add_pd FD low high;
          accumulatedBalance = fadd FD (sum' ! 0) (sum' ! 1)
      in fold (avx2_double_tail FD balances activeFlags minimumBalance)
           [n8..<count'] accumulatedBalance)"

definition SumActiveBalancesAvx2_double :: "UsersView \<Rightarrow> fp \<Rightarrow> fp" where
  "SumActiveBalancesAvx2_double = SumActiveBalancesAvx2_double_fmt binary32 binary64"

section \<open>The same-precision kernel (\<^verbatim>\<open>bench-dod-znver2.cpp\<close>)\<close>

text \<open>
  The body of the main loop: two groups of eight lanes, each added to its own
  accumulator. The two prefetches are hints and change no value.
\<close>

definition avx2_znver2_body ::
  "format \<Rightarrow> fp list \<Rightarrow> 8 word list \<Rightarrow> fp list \<Rightarrow> fp list \<Rightarrow> nat
     \<Rightarrow> fp list \<times> fp list \<Rightarrow> fp list \<times> fp list" where
  "avx2_znver2_body F balances activeFlags threshold one i acc =
     (let contrib0 = contrib8 F balances activeFlags threshold one i;
          acc0 = mm256_add_ps F (fst acc) contrib0;
          contrib1 = contrib8 F balances activeFlags threshold one (i + 8);
          acc1 = mm256_add_ps F (snd acc) contrib1
      in (acc0, acc1))"

definition avx2_znver2_tail :: "format \<Rightarrow> fp list \<Rightarrow> 8 word list \<Rightarrow> fp \<Rightarrow> nat \<Rightarrow> fp \<Rightarrow> fp" where
  "avx2_znver2_tail F balances activeFlags minimumBalance i accumulatedBalance =
     (if activeFlags ! i \<noteq> 0 \<and> fge (balances ! i) minimumBalance
      then fadd F accumulatedBalance (balances ! i)
      else accumulatedBalance)"

definition SumActiveBalancesAvx2_znver2_fmt :: "format \<Rightarrow> UsersView \<Rightarrow> fp \<Rightarrow> fp" where
  "SumActiveBalancesAvx2_znver2_fmt F usersView minimumBalance =
     (let count' = Count usersView;
          balances = Balances usersView;
          activeFlags = Active usersView;
          threshold = mm256_set1_ps minimumBalance;
          one = mm256_set1_ps f_one;
          acc0 = mm256_setzero_ps;
          acc1 = mm256_setzero_ps;
          vectorWidth = 16;
          n16 = (count' div vectorWidth) * vectorWidth;
          (acc0, acc1) =
             fold (avx2_znver2_body F balances activeFlags threshold one)
               (map (\<lambda>k. k * vectorWidth) [0..<n16 div vectorWidth]) (acc0, acc1);
          acc = mm256_add_ps F acc0 acc1;
          low = lower_half acc;
          high = upper_half acc;
          sum' = mm256_add_ps F low high;
          sum' = mm_hadd_ps F sum' sum';
          sum' = mm_hadd_ps F sum' sum';
          accumulatedBalance = sum' ! 0
      in fold (avx2_znver2_tail F balances activeFlags minimumBalance)
           [n16..<count'] accumulatedBalance)"

definition SumActiveBalancesAvx2_znver2 :: "UsersView \<Rightarrow> fp \<Rightarrow> fp" where
  "SumActiveBalancesAvx2_znver2 = SumActiveBalancesAvx2_znver2_fmt binary32"

section \<open>The capability dispatchers\<close>

text \<open>
  What the preprocessor and \<^verbatim>\<open>__builtin_cpu_supports("avx2")\<close> see: whether
  \<^verbatim>\<open>__AVX2__\<close> is defined, the two compiler macros of \<^verbatim>\<open>lib.hpp\<close>, and the answer
  of the running CPU.
\<close>

record Platform =
  AVX2_defined :: bool
  COMPILER_CLANG :: bool
  COMPILER_GCC :: bool
  cpu_supports_avx2 :: bool

text \<open>
  \<^verbatim>\<open>SumActiveBalances\<close> of \<^verbatim>\<open>bench-dod-avx2-double.cpp\<close>. Its return type is
  \<^verbatim>\<open>float\<close>: the \<^verbatim>\<open>double\<close> of the kernel is converted by the \<^verbatim>\<open>return\<close>.
\<close>

definition SumActiveBalances_avx2_double :: "Platform \<Rightarrow> UsersView \<Rightarrow> fp \<Rightarrow> fp" where
  "SumActiveBalances_avx2_double P usersView minimumBalance =
     (if AVX2_defined P then
        (if (COMPILER_CLANG P \<or> COMPILER_GCC P) \<and> cpu_supports_avx2 P
         then fcvt binary32 (SumActiveBalancesAvx2_double usersView minimumBalance)
         else SumActiveBalancesScalar usersView minimumBalance)
      else SumActiveBalancesScalar usersView minimumBalance)"

text \<open>\<^verbatim>\<open>SumActiveBalances\<close> of \<^verbatim>\<open>bench-dod-znver2.cpp\<close>.\<close>

definition SumActiveBalances_znver2 :: "Platform \<Rightarrow> UsersView \<Rightarrow> fp \<Rightarrow> fp" where
  "SumActiveBalances_znver2 P usersView minimumBalance =
     (if AVX2_defined P then
        (if (COMPILER_CLANG P \<or> COMPILER_GCC P) \<and> cpu_supports_avx2 P
         then SumActiveBalancesAvx2_znver2 usersView minimumBalance
         else SumActiveBalancesScalar usersView minimumBalance)
      else SumActiveBalancesScalar usersView minimumBalance)"

section \<open>The repository (\<^verbatim>\<open>bench-repository.cpp\<close>)\<close>

record User =
  User_Id :: "32 word"
  User_Balance :: fp
  User_Active :: bool

text \<open>
  \<^verbatim>\<open>VectorUserRepository\<close> owns the vector \<^verbatim>\<open>Users\<close>. \<^verbatim>\<open>ForEach\<close> calls the visitor
  on every record in storage order; the visitor's captured variables are the state
  \<open>s\<close>.
\<close>

definition ForEach :: "User list \<Rightarrow> (User \<Rightarrow> 's \<Rightarrow> 's) \<Rightarrow> 's \<Rightarrow> 's" where
  "ForEach Users fn s = fold fn Users s"

fun FindById :: "User list \<Rightarrow> 32 word \<Rightarrow> User option" where
  "FindById [] id' = None"
| "FindById (user # Users) id' =
     (if User_Id user = id' then Some user else FindById Users id')"

definition Qualifies :: "User \<Rightarrow> fp \<Rightarrow> bool" where
  "Qualifies user minimumBalance =
     (let bQualifies = User_Active user \<and> fge (User_Balance user) minimumBalance
      in bQualifies)"

definition SumActiveBalances_repository_fmt :: "format \<Rightarrow> User list \<Rightarrow> fp \<Rightarrow> fp" where
  "SumActiveBalances_repository_fmt F repository minimumBalance =
     (let accumulatedBalance = f_zero
      in ForEach repository
           (\<lambda>user accumulatedBalance.
              if Qualifies user minimumBalance
              then fadd F accumulatedBalance (User_Balance user)
              else accumulatedBalance)
           accumulatedBalance)"

definition SumActiveBalances_repository :: "User list \<Rightarrow> fp \<Rightarrow> fp" where
  "SumActiveBalances_repository = SumActiveBalances_repository_fmt binary32"

section \<open>Notions used in the statements\<close>

text \<open>
  The formats the analysis covers: at least eight significand bits and the exponent 0
  in range, so that the activity bytes and \<^verbatim>\<open>1.0\<close> are values of the format.
\<close>

definition fmt_ok :: "format \<Rightarrow> bool" where
  "fmt_ok F = (case F of Binary p el eh \<Rightarrow> 8 \<le> p \<and> el \<le> 0 \<and> 0 \<le> eh | Exact \<Rightarrow> True)"

text \<open>\<open>widens F F'\<close>: every value of \<open>F\<close> is a value of \<open>F'\<close>.\<close>

definition widens :: "format \<Rightarrow> format \<Rightarrow> bool" where
  "widens F F' =
     (case F' of
        Exact \<Rightarrow> True
      | Binary p' el' eh' \<Rightarrow>
          (case F of Exact \<Rightarrow> False | Binary p el eh \<Rightarrow> p \<le> p' \<and> el' \<le> el \<and> eh \<le> eh'))"

text \<open>
  The unit roundoff \<open>2^(-p)\<close> of a format, and the factor \<open>(1 + u)^d - 1\<close> that bounds
  the relative error of a sum whose additions are nested at most \<open>d\<close> deep.
\<close>

definition uro :: "format \<Rightarrow> rat" where
  "uro F = (case F of Binary p el eh \<Rightarrow> 1 / 2 ^ p | Exact \<Rightarrow> 0)"

definition err_factor :: "format \<Rightarrow> nat \<Rightarrow> rat" where
  "err_factor F d = (1 + uro F) ^ d - 1"

text \<open>The multiples of the least quantum of a format.\<close>

definition on_grid :: "format \<Rightarrow> rat \<Rightarrow> bool" where
  "on_grid F a = (case F of Binary p el eh \<Rightarrow> (\<exists>k. a = of_int k * pow2 el) | Exact \<Rightarrow> True)"

definition neg_zero :: fp where
  "neg_zero = FNum True 0"

definition is_zero :: "fp \<Rightarrow> bool" where
  "is_zero x \<longleftrightarrow> x = f_zero \<or> x = neg_zero"



text \<open>
  The predicate of the reduction at index \<open>i\<close>, and the product that the scalar loop
  and the vector lanes add for it.
\<close>

definition qualifies :: "UsersView \<Rightarrow> fp \<Rightarrow> nat \<Rightarrow> bool" where
  "qualifies v t i \<longleftrightarrow> Active v ! i \<noteq> 0 \<and> fge (Balances v ! i) t"

definition product :: "format \<Rightarrow> UsersView \<Rightarrow> fp \<Rightarrow> nat \<Rightarrow> fp" where
  "product F v t i = fmul F (Balances v ! i) (if qualifies v t i then f_one else f_zero)"

text \<open>Adding \<open>g 0\<close>, ..., \<open>g (m - 1)\<close> to \<open>init\<close> in this order.\<close>

definition accumulate :: "format \<Rightarrow> (nat \<Rightarrow> fp) \<Rightarrow> nat \<Rightarrow> fp \<Rightarrow> fp" where
  "accumulate F g m init = fold (\<lambda>k a. fadd F a (g k)) [0..<m] init"

text \<open>
  Lane \<open>j\<close> of the accumulators after \<open>m\<close> iterations of the main loop, and the
  horizontal sums of the lanes, for the two kernels.
\<close>

definition wide_lane :: "format \<Rightarrow> format \<Rightarrow> UsersView \<Rightarrow> fp \<Rightarrow> nat \<Rightarrow> nat \<Rightarrow> fp" where
  "wide_lane FS FD v t m j =
     accumulate FD (\<lambda>k. fcvt FD (product FS v t (k * 8 + j))) m f_zero"

definition same_lane :: "format \<Rightarrow> UsersView \<Rightarrow> fp \<Rightarrow> nat \<Rightarrow> nat \<Rightarrow> fp" where
  "same_lane F v t m j = accumulate F (\<lambda>k. product F v t (k * 16 + j)) m f_zero"

definition wide_hsum :: "format \<Rightarrow> (nat \<Rightarrow> fp) \<Rightarrow> fp" where
  "wide_hsum FD L =
     fadd FD (fadd FD (fadd FD (L 0) (L 4)) (fadd FD (L 2) (L 6)))
             (fadd FD (fadd FD (L 1) (L 5)) (fadd FD (L 3) (L 7)))"

definition same_hsum :: "format \<Rightarrow> (nat \<Rightarrow> fp) \<Rightarrow> fp" where
  "same_hsum F L =
     fadd F (fadd F (fadd F (fadd F (L 0) (L 8)) (fadd F (L 4) (L 12)))
                    (fadd F (fadd F (L 1) (L 9)) (fadd F (L 5) (L 13))))
            (fadd F (fadd F (fadd F (L 2) (L 10)) (fadd F (L 6) (L 14)))
                    (fadd F (fadd F (L 3) (L 11)) (fadd F (L 7) (L 15))))"

text \<open>A view without NaN and infinity among its balances.\<close>

definition finite_view :: "UsersView \<Rightarrow> bool" where
  "finite_view v \<longleftrightarrow> list_all is_finite (Balances v)"

text \<open>
  The view holds the records of the repository in parallel arrays: an activity byte
  is nonzero exactly when the record is active.
\<close>

definition same_data :: "User list \<Rightarrow> UsersView \<Rightarrow> bool" where
  "same_data users v \<longleftrightarrow>
     Count v = length users \<and> Ids v = map User_Id users \<and>
     Balances v = map User_Balance users \<and>
     list_all2 (\<lambda>a u. (a \<noteq> 0) = User_Active u) (Active v) users"










section \<open>Example inputs\<close>

text \<open>
  The example of the specification: balances 100, 300, 250, 999, activity bytes
  1, 1, 0, 1, threshold 250.
\<close>

definition view_example :: UsersView where
  "view_example =
     \<lparr>Ids = [0, 1, 2, 3],
      Balances = [FNum False 100, FNum False 300, FNum False 250, FNum False 999],
      Active = [1, 1, 0, 1],
      Count = 4\<rparr>"

definition users_example :: "User list" where
  "users_example =
     [\<lparr>User_Id = 7, User_Balance = FNum False 100, User_Active = True\<rparr>,
      \<lparr>User_Id = 3, User_Balance = FNum False 300, User_Active = True\<rparr>,
      \<lparr>User_Id = 7, User_Balance = FNum False 250, User_Active = False\<rparr>]"

text \<open>A build with AVX2 compiled in by GCC, run on a CPU without AVX2.\<close>

definition platform_no_cpu_avx2 :: Platform where
  "platform_no_cpu_avx2 =
     \<lparr>AVX2_defined = True, COMPILER_CLANG = False, COMPILER_GCC = True,
      cpu_supports_avx2 = False\<rparr>"

text \<open>A build with AVX2 compiled in by GCC, run on a CPU with AVX2.\<close>

definition platform_avx2 :: Platform where
  "platform_avx2 =
     \<lparr>AVX2_defined = True, COMPILER_CLANG = False, COMPILER_GCC = True,
      cpu_supports_avx2 = True\<rparr>"

text \<open>The example with another balance at the inactive index 2.\<close>

definition view_example_hidden :: UsersView where
  "view_example_hidden =
     \<lparr>Ids = [0, 1, 2, 3],
      Balances = [FNum False 100, FNum False 300, FNum False 777, FNum False 999],
      Active = [1, 1, 0, 1],
      Count = 4\<rparr>"

text \<open>The records of the example, as the repository stores them.\<close>

definition users_of_example :: "User list" where
  "users_of_example =
     [\<lparr>User_Id = 0, User_Balance = FNum False 100, User_Active = True\<rparr>,
      \<lparr>User_Id = 1, User_Balance = FNum False 300, User_Active = True\<rparr>,
      \<lparr>User_Id = 2, User_Balance = FNum False 250, User_Active = False\<rparr>,
      \<lparr>User_Id = 3, User_Balance = FNum False 999, User_Active = True\<rparr>]"

text \<open>One inactive element whose balance is \<open>+\<infinity>\<close>, as a view and as records.\<close>

definition view_inactive_inf :: UsersView where
  "view_inactive_inf = \<lparr>Ids = [0], Balances = [FInf False], Active = [0], Count = 1\<rparr>"

definition users_inactive_inf :: "User list" where
  "users_inactive_inf = [\<lparr>User_Id = 0, User_Balance = FInf False, User_Active = False\<rparr>]"

text \<open>Two active elements whose sum, \<open>2^24 + 1\<close>, is a \<^verbatim>\<open>double\<close> but not a \<^verbatim>\<open>float\<close>.\<close>

definition view_narrowing :: UsersView where
  "view_narrowing =
     \<lparr>Ids = [0, 1], Balances = [FNum False 16777216, FNum False 1], Active = [1, 1],
      Count = 2\<rparr>"

text \<open>
  The largest \<^verbatim>\<open>float\<close>, \<open>(2^24 - 1) * 2^104\<close>, a view of two active elements with this
  balance, and a view of three active elements with the balances \<open>max\<close>, \<open>max\<close>, \<open>-max\<close>.
\<close>

definition flt_max :: rat where
  "flt_max = 340282346638528859811704183484516925440"







section \<open>Powers of two and the binary logarithm\<close>

lemma pow2_pos [simp]: "0 < pow2 k"
  by (simp add: pow2_def)

lemma pow2_nonneg [simp]: "0 \<le> pow2 k"
  by (simp add: pow2_def)

lemma pow2_neq0 [simp]: "pow2 k \<noteq> 0"
  by (simp add: pow2_def)

lemma pow2_0 [simp]: "pow2 0 = 1"
  by (simp add: pow2_def)

lemma pow2_add: "pow2 (m + n) = pow2 m * pow2 n"
  unfolding pow2_def by (rule power_int_add) simp

lemma pow2_diff: "pow2 (m - n) = pow2 m / pow2 n"
  unfolding pow2_def by (rule power_int_diff) simp

lemma pow2_1 [simp]: "pow2 1 = 2"
  by (simp add: pow2_def)

lemma pow2_Suc: "pow2 (k + 1) = 2 * pow2 k"
  by (simp add: pow2_add)

lemma pow2_nat: "pow2 (int n) = 2 ^ n"
  by (simp add: pow2_def)

lemma pow2_of_nonneg: "0 \<le> k \<Longrightarrow> pow2 k = of_int (2 ^ nat k)"
  by (simp add: pow2_def power_int_def)

lemma pow2_mono: "m \<le> n \<Longrightarrow> pow2 m \<le> pow2 n"
  unfolding pow2_def by (rule power_int_increasing) simp_all

lemma pow2_strict_mono: "m < n \<Longrightarrow> pow2 m < pow2 n"
  unfolding pow2_def by (rule power_int_strict_increasing) simp_all

lemma pow2_le_iff [simp]: "pow2 m \<le> pow2 n \<longleftrightarrow> m \<le> n"
  using pow2_mono [of m n] pow2_strict_mono [of n m] by (auto simp: not_le [symmetric])

lemma pow2_less_iff [simp]: "pow2 m < pow2 n \<longleftrightarrow> m < n"
  using pow2_mono [of n m] pow2_strict_mono [of m n] by (auto simp: not_less [symmetric])

lemma quotient_of_pos:
  assumes "0 < a"
  shows "0 < fst (quotient_of a)" "0 < snd (quotient_of a)"
    "a = of_int (fst (quotient_of a)) / of_int (snd (quotient_of a))"
proof -
  obtain n d where nd: "quotient_of a = (n, d)" by (cases "quotient_of a")
  then have d: "0 < d" by (rule quotient_of_denom_pos)
  from nd have a: "a = of_int n / of_int d" by (rule quotient_of_div)
  with assms d have "0 < n" by (simp add: zero_less_divide_iff)
  with nd d a show "0 < fst (quotient_of a)" "0 < snd (quotient_of a)"
    "a = of_int (fst (quotient_of a)) / of_int (snd (quotient_of a))" by simp_all
qed

lemma bitlen_pow2_bounds:
  assumes "0 < (n::int)"
  shows "pow2 (bitlen n - 1) \<le> of_int n" "of_int n < pow2 (bitlen n)"
proof -
  from bitlen_bounds [OF assms]
  have b: "2 ^ nat (bitlen n - 1) \<le> n" "n < 2 ^ nat (bitlen n)" by simp_all
  have p: "1 \<le> bitlen n" using assms by (simp add: bitlen_def floorlog_def)
  have "(of_int (2 ^ nat (bitlen n - 1)) :: rat) \<le> of_int n" using b(1) by (simp only: of_int_le_iff)
  then show "pow2 (bitlen n - 1) \<le> of_int n" using p by (simp add: pow2_of_nonneg)
  have "(of_int n :: rat) < of_int (2 ^ nat (bitlen n))" using b(2) by (simp only: of_int_less_iff)
  then show "of_int n < pow2 (bitlen n)" using p by (simp add: pow2_of_nonneg)
qed

lemma ilog2_bounds:
  assumes "0 < a"
  shows "pow2 (ilog2 a) \<le> a" "a < pow2 (ilog2 a + 1)"
proof -
  define n where "n = fst (quotient_of a)"
  define d where "d = snd (quotient_of a)"
  define k where "k = bitlen n - bitlen d"
  from quotient_of_pos [OF assms]
  have n: "0 < n" and d: "0 < d" and a: "a = of_int n / of_int d"
    by (simp_all add: n_def d_def)
  note bn = bitlen_pow2_bounds [OF n] and bd = bitlen_pow2_bounds [OF d]
  have dr: "(0::rat) < of_int d" using d by simp
  have "a < pow2 (bitlen n) / pow2 (bitlen d - 1)"
    unfolding a using bn(2) bd(1) dr
    by (intro frac_less) (auto intro: less_imp_le simp: n)
  also have "\<dots> = pow2 (bitlen n - (bitlen d - 1))"
    by (simp only: pow2_diff)
  also have "bitlen n - (bitlen d - 1) = k + 1"
    by (simp add: k_def)
  finally have up: "a < pow2 (k + 1)" .
  have "pow2 (bitlen n - 1) / pow2 (bitlen d) \<le> a"
    unfolding a using bn(1) bd(2) dr
    by (intro frac_le) (auto intro: less_imp_le simp: n less_imp_le)
  moreover have "pow2 (bitlen n - 1) / pow2 (bitlen d) = pow2 (bitlen n - 1 - bitlen d)"
    by (simp only: pow2_diff)
  moreover have "bitlen n - 1 - bitlen d = k - 1"
    by (simp add: k_def)
  ultimately have lo: "pow2 (k - 1) \<le> a" by simp
  have il: "ilog2 a = (if pow2 k \<le> a then k else k - 1)"
    by (simp add: ilog2_def Let_def k_def n_def d_def)
  show "pow2 (ilog2 a) \<le> a" using il lo by auto
  show "a < pow2 (ilog2 a + 1)" using il up by auto
qed

lemma ilog2_less: "0 < a \<Longrightarrow> a < pow2 k \<Longrightarrow> ilog2 a < k"
  using ilog2_bounds(1) [of a] pow2_less_iff [of "ilog2 a" k] by linarith

lemma ilog2_ge: "0 < a \<Longrightarrow> pow2 k \<le> a \<Longrightarrow> k \<le> ilog2 a"
proof -
  assume a: "0 < a" "pow2 k \<le> a"
  then have "pow2 k < pow2 (ilog2 a + 1)" using ilog2_bounds(2) [of a] by linarith
  then show ?thesis by simp
qed

section \<open>Rounding to nearest, ties to even\<close>

text \<open>
  Rounding leaves the values of a format alone, returns a value of the format, and
  has a relative error of at most the unit roundoff on the multiples of the least
  quantum, which include every sum of two values of the format.
\<close>

lemma rne_of_int [simp]: "rne (of_int n) = n"
  by (simp add: rne_def)

lemma rne_error: "\<bar>of_int (rne q) - q\<bar> \<le> 1 / 2"
proof -
  have "of_int \<lfloor>q\<rfloor> \<le> q" "q < of_int \<lfloor>q\<rfloor> + 1" by linarith+
  then show ?thesis
    by (auto simp: rne_def Let_def abs_le_iff)
qed

lemma rne_le: "q \<le> of_int n \<Longrightarrow> rne q \<le> n"
proof -
  assume q: "q \<le> of_int n"
  have f: "\<lfloor>q\<rfloor> \<le> n" using q by (simp add: floor_le_iff)
  show ?thesis
  proof (cases "\<lfloor>q\<rfloor> = n")
    case True
    then have "q = of_int n" using q by linarith
    then show ?thesis by simp
  next
    case False
    then have "\<lfloor>q\<rfloor> + 1 \<le> n" using f by simp
    then show ?thesis by (auto simp: rne_def Let_def)
  qed
qed

lemma rne_ge: "of_int n \<le> q \<Longrightarrow> n \<le> rne q"
proof -
  assume "of_int n \<le> q"
  then have "n \<le> \<lfloor>q\<rfloor>" by (simp add: le_floor_iff)
  then show ?thesis by (auto simp: rne_def Let_def)
qed

lemma rne_0 [simp]: "rne 0 = 0"
  using rne_of_int [of 0] by simp

lemma round_mag_zero [simp]: "round_mag F 0 = Some 0"
  by (cases F) (simp_all add: Let_def)

lemma round_mag_repr:
  assumes a: "a = of_int m * pow2 e" and m: "0 \<le> m" "m < 2 ^ p" and e: "el \<le> e" "e \<le> eh"
  shows "round_mag (Binary p el eh) a = Some a"
proof (cases "m = 0")
  case True
  then show ?thesis using a by simp
next
  case False
  with m have mpos: "0 < m" by simp
  then have apos: "0 < a" using a by simp
  define e' where "e' = max el (ilog2 a - (int p - 1))"
  have "of_int m < (of_int (2 ^ p) :: rat)" using m(2) by (simp only: of_int_less_iff)
  then have "of_int m < pow2 (int p)" by (simp add: pow2_nat)
  then have "a < pow2 (int p) * pow2 e" unfolding a by simp
  then have ub: "a < pow2 (int p + e)" by (simp add: pow2_add)
  then have "ilog2 a < int p + e" using apos by (rule ilog2_less [rotated])
  then have e'le: "e' \<le> e" using e(1) by (simp add: e'_def)
  have "a / pow2 e' = of_int m * (pow2 e / pow2 e')" unfolding a by simp
  also have "pow2 e / pow2 e' = pow2 (e - e')" by (simp only: pow2_diff)
  also have "\<dots> = of_int (2 ^ nat (e - e'))" using e'le by (simp add: pow2_of_nonneg)
  finally have q: "a / pow2 e' = of_int (m * 2 ^ nat (e - e'))" by simp
  have "of_int (rne (a / pow2 e')) * pow2 e' = a / pow2 e' * pow2 e'"
    unfolding q rne_of_int ..
  also have "\<dots> = a" by simp
  finally have r: "of_int (rne (a / pow2 e')) * pow2 e' = a" .
  have "pow2 (int p + e) \<le> pow2 (eh + int p)" using e(2) by simp
  with ub have "a < pow2 (eh + int p)" by linarith
  with r show ?thesis by (simp add: Let_def e'_def)
qed

lemma round_mag_is_repr:
  assumes a: "0 \<le> a" and r: "round_mag (Binary p el eh) a = Some r"
    and ok: "0 < p" "el \<le> eh"
  shows "\<exists>m e. r = of_int m * pow2 e \<and> 0 \<le> m \<and> m < 2 ^ p \<and> el \<le> e \<and> e \<le> eh"
proof (cases "a = 0")
  case True
  with r have "r = 0" by simp
  then have "r = of_int 0 * pow2 el \<and> (0::int) \<le> 0 \<and> (0::int) < 2 ^ p \<and> el \<le> el \<and> el \<le> eh"
    using ok by simp
  then show ?thesis by blast
next
  case False
  with a have apos: "0 < a" by simp
  define e' where "e' = max el (ilog2 a - (int p - 1))"
  define n where "n = rne (a / pow2 e')"
  from r have rn: "r = of_int n * pow2 e'" and rlt: "r < pow2 (eh + int p)"
    by (auto simp: Let_def e'_def n_def split: if_splits)
  have "0 \<le> a / pow2 e'" using a by simp
  then have "of_int 0 \<le> a / pow2 e'" by simp
  then have n0: "0 \<le> n" unfolding n_def by (rule rne_ge)
  have "ilog2 a + 1 \<le> e' + int p" by (simp add: e'_def)
  then have "pow2 (ilog2 a + 1) \<le> pow2 (e' + int p)" by simp
  with ilog2_bounds(2) [OF apos] have "a < pow2 (e' + int p)" by linarith
  then have "a < pow2 e' * pow2 (int p)" by (simp add: pow2_add)
  then have "a / pow2 e' < pow2 (int p)" by (simp add: pos_divide_less_eq mult.commute)
  then have "a / pow2 e' \<le> of_int (2 ^ p)" by (simp add: pow2_nat)
  then have nle: "n \<le> 2 ^ p" unfolding n_def by (rule rne_le)
  show ?thesis
  proof (cases "n = 2 ^ p")
    case True
    have "r = pow2 (int p) * pow2 e'" unfolding rn True by (simp add: pow2_nat)
    then have rp: "r = pow2 (int p + e')" by (simp add: pow2_add)
    with rlt have "int p + e' < eh + int p" by simp
    then have e1: "e' + 1 \<le> eh" by simp
    have e2: "el \<le> e' + 1" by (simp add: e'_def)
    have "int p + e' = int (p - 1) + (e' + 1)" using ok(1) by simp
    then have "r = pow2 (int (p - 1)) * pow2 (e' + 1)" unfolding rp by (simp only: pow2_add)
    then have "r = of_int (2 ^ (p - 1)) * pow2 (e' + 1)" by (simp add: pow2_nat)
    moreover have "(2::int) ^ (p - 1) < 2 ^ p" using ok(1) by simp
    ultimately have "r = of_int (2 ^ (p - 1)) * pow2 (e' + 1) \<and> (0::int) \<le> 2 ^ (p - 1) \<and>
        (2::int) ^ (p - 1) < 2 ^ p \<and> el \<le> e' + 1 \<and> e' + 1 \<le> eh"
      using e1 e2 by simp
    then show ?thesis by blast
  next
    case False
    with nle have nlt: "n < 2 ^ p" by simp
    have "e' \<le> eh"
    proof (cases "e' = el")
      case True then show ?thesis using ok(2) by simp
    next
      case False
      then have e'eq: "e' = ilog2 a - (int p - 1)" by (simp add: e'_def max_def split: if_splits)
      have "pow2 (e' + int (p - 1)) = pow2 (ilog2 a)" using ok(1) by (simp add: e'eq)
      with ilog2_bounds(1) [OF apos] have "pow2 (e' + int (p - 1)) \<le> a" by simp
      then have "pow2 e' * pow2 (int (p - 1)) \<le> a" by (simp add: pow2_add)
      then have "pow2 (int (p - 1)) \<le> a / pow2 e'" by (simp add: pos_le_divide_eq mult.commute)
      then have "of_int (2 ^ (p - 1)) \<le> a / pow2 e'" by (simp add: pow2_nat)
      then have "2 ^ (p - 1) \<le> n" unfolding n_def by (rule rne_ge)
      then have "(of_int (2 ^ (p - 1)) :: rat) \<le> of_int n" by (simp only: of_int_le_iff)
      then have "pow2 (int (p - 1)) \<le> of_int n" by (simp add: pow2_nat)
      then have "pow2 (int (p - 1)) * pow2 e' \<le> of_int n * pow2 e'" by simp
      then have "pow2 (int (p - 1) + e') \<le> r" unfolding rn by (simp add: pow2_add)
      with rlt have "pow2 (int (p - 1) + e') < pow2 (eh + int p)" by linarith
      then show ?thesis by simp
    qed
    moreover have "el \<le> e'" by (simp add: e'_def)
    ultimately show ?thesis using rn n0 nlt by blast
  qed
qed

lemma round_mag_idem:
  assumes "0 \<le> a" "round_mag (Binary p el eh) a = Some r" "0 < p" "el \<le> eh"
  shows "round_mag (Binary p el eh) r = Some r"
proof -
  from round_mag_is_repr [OF assms] obtain m e where
    "r = of_int m * pow2 e" "0 \<le> m" "m < 2 ^ p" "el \<le> e" "e \<le> eh" by blast
  then show ?thesis by (rule round_mag_repr)
qed

lemma on_grid_Binary: "on_grid (Binary p el eh) a \<longleftrightarrow> (\<exists>k. a = of_int k * pow2 el)"
  by (simp add: on_grid_def)

lemma round_mag_rel_error_Binary:
  assumes apos: "0 < a" and r: "round_mag (Binary p el eh) a = Some r"
    and g: "a = of_int k * pow2 el"
  shows "\<bar>r - a\<bar> \<le> a / 2 ^ p"
proof -
  define e' where "e' = max el (ilog2 a - (int p - 1))"
  define n where "n = rne (a / pow2 e')"
  from r have rn: "r = of_int n * pow2 e'"
    by (auto simp: Let_def e'_def n_def split: if_splits)
  show ?thesis
  proof (cases "e' = el")
    case True
    have "a / pow2 e' = of_int k" unfolding True g by simp
    then have "n = k" by (simp add: n_def)
    then have "r = a" unfolding rn g True by simp
    then show ?thesis using apos by simp
  next
    case False
    then have e'eq: "e' = ilog2 a - (int p - 1)" by (simp add: e'_def max_def split: if_splits)
    have "\<bar>r - a\<bar> = \<bar>(of_int n - a / pow2 e') * pow2 e'\<bar>"
      unfolding rn by (simp add: algebra_simps)
    also have "\<dots> = \<bar>of_int n - a / pow2 e'\<bar> * pow2 e'"
      by (simp add: abs_mult)
    also have "\<dots> \<le> 1 / 2 * pow2 e'"
      using rne_error [of "a / pow2 e'"] unfolding n_def
      by (intro mult_right_mono) simp_all
    finally have b1: "\<bar>r - a\<bar> \<le> pow2 e' / 2" by simp
    have "ilog2 a = e' + int p - 1" by (simp add: e'eq)
    then have "pow2 (e' + int p - 1) \<le> a" using ilog2_bounds(1) [OF apos] by simp
    moreover have "pow2 (e' + int p - 1) = pow2 e' * pow2 (int p) / 2"
    proof -
      have "pow2 (e' + int p - 1) = pow2 (e' + int p) / pow2 1" by (simp only: pow2_diff)
      then show ?thesis by (simp add: pow2_add)
    qed
    ultimately have "pow2 e' * 2 ^ p / 2 \<le> a" by (simp add: pow2_nat)
    then have "pow2 e' / 2 \<le> a / 2 ^ p" by (simp add: field_simps)
    with b1 show ?thesis by linarith
  qed
qed

lemma round_mag_pos_Binary:
  assumes "0 < a" "round_mag (Binary p el eh) a = Some r" "a = of_int k * pow2 el" "0 < p"
  shows "0 < r"
proof -
  have "\<bar>r - a\<bar> \<le> a / 2 ^ p" using assms(1-3) by (rule round_mag_rel_error_Binary)
  moreover have "(2::rat) \<le> 2 ^ p" using assms(4) self_le_power [of "2::rat" p] by simp
  then have "a / 2 ^ p \<le> a / 2" using assms(1) by (intro divide_left_mono) simp_all
  ultimately have "\<bar>r - a\<bar> \<le> a / 2" by linarith
  moreover have "a - r \<le> \<bar>r - a\<bar>" by linarith
  ultimately show ?thesis using assms(1) by linarith
qed

lemma round_mag_rel_error:
  assumes "0 < a" "round_mag F a = Some r" "on_grid F a"
  shows "\<bar>r - a\<bar> \<le> uro F * a"
proof (cases F)
  case (Binary p el eh)
  with assms(3) obtain k where "a = of_int k * pow2 el" by (auto simp: on_grid_def)
  with assms(1,2) have "\<bar>r - a\<bar> \<le> a / 2 ^ p"
    unfolding Binary by (intro round_mag_rel_error_Binary)
  then show ?thesis by (simp add: uro_def Binary)
next
  case Exact
  with assms show ?thesis by (simp add: uro_def)
qed

lemma round_mag_pos:
  assumes "0 < a" "round_mag F a = Some r" "on_grid F a" "fmt_ok F"
  shows "0 < r"
proof (cases F)
  case (Binary p el eh)
  with assms(3) obtain k where "a = of_int k * pow2 el" by (auto simp: on_grid_def)
  with assms(1,2,4) show ?thesis
    unfolding Binary by (intro round_mag_pos_Binary [of a p el eh r k]) (simp_all add: fmt_ok_def)
next
  case Exact
  with assms show ?thesis by simp
qed

lemma round_mag_nonneg:
  assumes "0 \<le> a" "round_mag F a = Some r"
  shows "0 \<le> r"
proof (cases F)
  case (Binary p el eh)
  define e' where "e' = max el (ilog2 a - (int p - 1))"
  from assms(2) have rn: "r = of_int (rne (a / pow2 e')) * pow2 e'"
    unfolding Binary e'_def by (auto simp: Let_def split: if_splits)
  have "of_int 0 \<le> a / pow2 e'" using assms(1) by simp
  then have "0 \<le> rne (a / pow2 e')" by (rule rne_ge)
  then show ?thesis unfolding rn by simp
next
  case Exact
  with assms show ?thesis by simp
qed

lemma round_mag_fix:
  assumes "0 \<le> a" "round_mag F a = Some r" "fmt_ok F"
  shows "round_mag F r = Some r"
proof (cases F)
  case (Binary p el eh)
  have h: "round_mag (Binary p el eh) a = Some r" using assms(2) by (simp only: Binary)
  have "0 < p" "el \<le> eh" using assms(3) by (simp_all add: Binary fmt_ok_def)
  from round_mag_idem [OF assms(1) h this] show ?thesis by (simp only: Binary)
next
  case Exact
  then show ?thesis by simp
qed

lemma valid_on_grid:
  assumes "0 \<le> a" "round_mag F a = Some a" "fmt_ok F"
  shows "on_grid F a"
proof (cases F)
  case (Binary p el eh)
  with assms have "\<exists>m e. a = of_int m * pow2 e \<and> 0 \<le> m \<and> m < 2 ^ p \<and> el \<le> e \<and> e \<le> eh"
    by (intro round_mag_is_repr [of a p el eh a]) (simp_all add: fmt_ok_def)
  then obtain m e where me: "a = of_int m * pow2 e" "el \<le> e" by blast
  have "pow2 e = pow2 (e - el) * pow2 el" by (simp add: pow2_add [symmetric])
  also have "pow2 (e - el) = of_int (2 ^ nat (e - el))" using me(2) by (simp add: pow2_of_nonneg)
  finally have "a = of_int (m * 2 ^ nat (e - el)) * pow2 el" unfolding me(1) by simp
  then show ?thesis unfolding Binary on_grid_Binary by blast
next
  case Exact
  then show ?thesis by (simp add: on_grid_def)
qed

lemma on_grid_add: "on_grid F a \<Longrightarrow> on_grid F b \<Longrightarrow> on_grid F (a + b)"
proof (cases F)
  case (Binary p el eh)
  assume "on_grid F a" "on_grid F b"
  then obtain k l where "a = of_int k * pow2 el" "b = of_int l * pow2 el"
    by (auto simp: on_grid_def Binary)
  then have "a + b = of_int (k + l) * pow2 el" by (simp add: algebra_simps)
  then show ?thesis unfolding Binary on_grid_Binary by blast
qed (simp add: on_grid_def)

lemma on_grid_minus: "on_grid F a \<Longrightarrow> on_grid F (- a)"
proof (cases F)
  case (Binary p el eh)
  assume "on_grid F a"
  then obtain k where "a = of_int k * pow2 el"
    by (auto simp: on_grid_def Binary)
  then have "- a = of_int (- k) * pow2 el" by simp
  then show ?thesis unfolding Binary on_grid_Binary by blast
qed (simp add: on_grid_def)

lemma on_grid_abs: "on_grid F a \<Longrightarrow> on_grid F \<bar>a\<bar>"
  by (cases "0 \<le> a") (simp_all add: on_grid_minus abs_if)

lemma on_grid_sval: "on_grid F a \<Longrightarrow> on_grid F (sval s a)"
  by (simp add: sval_def on_grid_minus)

lemma fmt_ok_binary32 [simp]: "fmt_ok binary32"
  by (simp add: fmt_ok_def binary32_def)

lemma fmt_ok_binary64 [simp]: "fmt_ok binary64"
  by (simp add: fmt_ok_def binary64_def)




lemma widens_refl [simp]: "widens F F"
  by (cases F) (simp_all add: widens_def)

lemma round_mag_of_nat:
  assumes "fmt_ok F" "n < 256"
  shows "round_mag F (of_nat n) = Some (of_nat n)"
proof (cases F)
  case (Binary p el eh)
  with assms(1) have ok: "8 \<le> p" "el \<le> 0" "0 \<le> eh" by (simp_all add: fmt_ok_def)
  have "(2::int) ^ 8 \<le> 2 ^ p" using ok(1) by (intro power_increasing) simp_all
  moreover have "int n < 2 ^ 8" using assms(2) by simp
  ultimately have "int n < 2 ^ p" by linarith
  moreover have "(of_nat n :: rat) = of_int (int n) * pow2 0" by simp
  ultimately show ?thesis unfolding Binary using ok(2,3)
    by (intro round_mag_repr [of _ "int n" 0]) simp_all
next
  case Exact
  then show ?thesis by simp
qed

lemma round_mag_one [simp]: "fmt_ok F \<Longrightarrow> round_mag F 1 = Some 1"
  using round_mag_of_nat [of F 1] by simp


section \<open>Arithmetic on the values of a format\<close>


lemma fround_is_fp: "0 \<le> a \<Longrightarrow> fmt_ok F \<Longrightarrow> is_fp F (fround F s a)"
  by (auto simp: fround_def split: option.splits intro: round_mag_fix round_mag_nonneg)

lemma fround_valid [simp]: "round_mag F a = Some a \<Longrightarrow> fround F s a = FNum s a"
  by (simp add: fround_def)



lemma fcvt_is_fp: "is_fp F' x \<Longrightarrow> fmt_ok F \<Longrightarrow> is_fp F (fcvt F x)"
  by (cases x) (simp_all add: fround_is_fp)

lemma fadd_is_fp: "fmt_ok F \<Longrightarrow> is_fp F (fadd F x y)"
  by (cases x; cases y) (simp_all add: Let_def fround_is_fp)

lemma fmul_is_fp: "is_fp F' x \<Longrightarrow> is_fp F'' y \<Longrightarrow> fmt_ok F \<Longrightarrow> is_fp F (fmul F x y)"
  by (cases x; cases y) (simp_all add: fround_is_fp)

lemma is_fp_zero [simp]: "is_fp F f_zero"
  by (simp add: f_zero_def)

lemma is_fp_one [simp]: "fmt_ok F \<Longrightarrow> is_fp F f_one"
  by (simp add: f_one_def)



lemma fmul_one: "is_fp F x \<Longrightarrow> fmul F x f_one = x"
  by (cases x) (simp_all add: f_one_def)

lemma fmul_zero: "is_finite x \<Longrightarrow> is_zero (fmul F x f_zero)"
  by (cases x) (auto simp: f_zero_def is_zero_def neg_zero_def fround_def)

lemma fval_is_zero [simp]: "is_zero z \<Longrightarrow> fval z = 0"
  by (auto simp: is_zero_def f_zero_def neg_zero_def sval_def)

lemma is_zero_finite [simp]: "is_zero z \<Longrightarrow> is_finite z"
  by (auto simp: is_zero_def f_zero_def neg_zero_def)

lemma is_zero_is_fp [simp]: "is_zero z \<Longrightarrow> is_fp F z"
  by (auto simp: is_zero_def f_zero_def neg_zero_def)

lemma fadd_zero_right:
  assumes "is_fp F x" "x \<noteq> neg_zero" "is_zero z"
  shows "fadd F x z = x"
proof (cases x)
  case (FNum s a)
  from assms(3) obtain t where z: "z = FNum t 0" by (auto simp: is_zero_def f_zero_def neg_zero_def)
  from assms(1) have a: "0 \<le> a" "round_mag F a = Some a" by (simp_all add: FNum)
  show ?thesis
  proof (cases "a = 0")
    case True
    with assms(2) have "\<not> s" by (auto simp: FNum neg_zero_def)
    with True show ?thesis by (simp add: FNum z sval_def)
  next
    case False
    with a have "0 < a" by simp
    then show ?thesis using a(2) by (auto simp: FNum z sval_def)
  qed
next
  case FNaN
  then show ?thesis by simp
next
  case (FInf s)
  with assms(3) show ?thesis by (auto simp: is_zero_def f_zero_def neg_zero_def)
qed

lemma fadd_FNum_cases:
  assumes x: "is_fp F (FNum s a)" and y: "is_fp F (FNum t b)" and ok: "fmt_ok F"
    and r: "r = sval s a + sval t b"
  shows "(r = 0 \<and> fadd F (FNum s a) (FNum t b) = FNum (s \<and> t) 0) \<or>
         (r \<noteq> 0 \<and> fadd F (FNum s a) (FNum t b) = FInf (r < 0)) \<or>
         (r \<noteq> 0 \<and> (\<exists>r'. fadd F (FNum s a) (FNum t b) = FNum (r < 0) r' \<and> 0 < r' \<and>
             \<bar>r' - \<bar>r\<bar>\<bar> \<le> uro F * \<bar>r\<bar>))"
proof (cases "r = 0")
  case True
  then show ?thesis using r by simp
next
  case False
  have ga: "on_grid F a" using x ok by (auto intro: valid_on_grid)
  have gb: "on_grid F b" using y ok by (auto intro: valid_on_grid)
  have g: "on_grid F \<bar>r\<bar>" unfolding r by (intro on_grid_abs on_grid_add on_grid_sval ga gb)
  have rpos: "0 < \<bar>r\<bar>" using False by simp
  have add: "fadd F (FNum s a) (FNum t b) = fround F (r < 0) \<bar>r\<bar>"
    using False r by (simp add: Let_def)
  show ?thesis
  proof (cases "round_mag F \<bar>r\<bar>")
    case None
    then show ?thesis using False add by (simp add: fround_def)
  next
    case (Some r')
    have "0 < r'" using rpos Some g ok by (rule round_mag_pos)
    moreover have "\<bar>r' - \<bar>r\<bar>\<bar> \<le> uro F * \<bar>r\<bar>" using rpos Some g by (rule round_mag_rel_error)
    ultimately show ?thesis using False add Some by (simp add: fround_def)
  qed
qed

lemma fadd_neq_neg_zero:
  assumes "is_fp F x" "is_fp F y" "fmt_ok F" "x \<noteq> neg_zero"
  shows "fadd F x y \<noteq> neg_zero"
proof (cases x)
  case x: (FNum s a)
  show ?thesis
  proof (cases y)
    case y: (FNum t b)
    define r where "r = sval s a + sval t b"
    from assms(1,2) have ab: "0 \<le> a" "0 \<le> b" by (simp_all add: x y)
    from fadd_FNum_cases [OF assms(1,2) [unfolded x y] assms(3) r_def]
    show ?thesis
    proof (elim disjE conjE exE)
      assume r0: "r = 0" and eq: "fadd F (FNum s a) (FNum t b) = FNum (s \<and> t) 0"
      have "\<not> (s \<and> t)"
      proof
        assume st: "s \<and> t"
        with r0 ab have "a = 0" by (simp add: r_def sval_def)
        with st assms(4) show False by (simp add: x neg_zero_def)
      qed
      then show ?thesis unfolding x y eq by (simp add: neg_zero_def)
    next
      assume "fadd F (FNum s a) (FNum t b) = FInf (r < 0)"
      then show ?thesis unfolding x y by (simp add: neg_zero_def)
    next
      fix r' assume "fadd F (FNum s a) (FNum t b) = FNum (r < 0) r'" "0 < r'"
      then show ?thesis unfolding x y by (simp add: neg_zero_def)
    qed
  qed (simp_all add: x neg_zero_def)
next
  case FNaN
  then show ?thesis by (simp add: neg_zero_def)
next
  case (FInf s)
  then show ?thesis by (cases y) (simp_all add: neg_zero_def)
qed


section \<open>Sums with bounded error\<close>

lemma uro_nonneg [simp]: "0 \<le> uro F"
  by (cases F) (simp_all add: uro_def)

lemma err_factor_nonneg [simp]: "0 \<le> err_factor F d"
  by (simp add: err_factor_def)



lemma err_factor_Exact [simp]: "err_factor Exact d = 0"
  by (simp add: err_factor_def uro_def)









section \<open>The kernels in closed form\<close>

text \<open>
  The predicate of a vector lane is the predicate of the scalar loop, and each kernel
  is the tail loop applied to the horizontal sum of its lanes, each lane a sequential
  accumulation of every eighth or sixteenth product.
\<close>

lemma upt_8: "[0..<8] = [0, 1, 2, 3, 4, 5, 6, 7]"
  by (simp add: upt_rec)

lemma upt_4: "[0..<4] = [0, 1, 2, 3]"
  by (simp add: upt_rec)

lemma sint_ucast_byte: "sint (ucast (a :: 8 word) :: 32 word) = uint a"
proof -
  have "uint a < 2 ^ 8" using uint_bounded [of a] by simp
  then have "uint a < 2 ^ 31" by simp
  moreover have "(- (2 ^ 31) :: int) \<le> 0" by simp
  then have "- (2 ^ 31) \<le> uint a" using uint_nonnegative [of a] by (rule order_trans)
  ultimately show ?thesis
    by (simp add: signed_ucast_eq signed_take_bit_int_eq_self)
qed

lemma fcvt_int_byte:
  assumes "fmt_ok F"
  shows "fcvt_int F (uint (a :: 8 word)) = FNum False (of_nat (unat a))"
proof -
  have "unat a < 256" using unsigned_less [of a, where 'a = nat] by simp
  with assms have "round_mag F (of_nat (unat a)) = Some (of_nat (unat a))"
    by (rule round_mag_of_nat)
  moreover have "(of_int \<bar>uint a\<bar> :: rat) = of_nat (unat a)"
    by (simp add: abs_of_nonneg)
  ultimately show ?thesis by (simp add: fcvt_int_def not_less)
qed

lemma fmin_ge_one: "1 \<le> q \<Longrightarrow> fmin (FNum False q) f_one = f_one"
  by (simp add: fmin_def f_one_def sval_def)

lemma active_clamp:
  assumes "fmt_ok F"
  shows "fmin (fcvt_int F (sint (ucast (a :: 8 word) :: 32 word))) f_one =
           (if a \<noteq> 0 then f_one else f_zero)"
proof (cases "a = 0")
  case True
  then show ?thesis
    by (simp add: fcvt_int_def fmin_def f_one_def f_zero_def sval_def)
next
  case False
  then have "unat a \<noteq> 0" by (simp add: unat_eq_0)
  then have "1 \<le> unat a" by simp
  then have "(of_nat 1 :: rat) \<le> of_nat (unat a)" by (rule of_nat_mono)
  then have "(1 :: rat) \<le> of_nat (unat a)" by (simp only: of_nat_1)
  then have "fmin (FNum False (of_nat (unat a))) f_one = f_one" by (rule fmin_ge_one)
  then show ?thesis using False
    by (simp only: sint_ucast_byte fcvt_int_byte [OF assms] if_True simp_thms)
qed

lemma contrib8_eq:
  assumes "fmt_ok F"
  shows "contrib8 F (Balances v) (Active v) (mm256_set1_ps t) (mm256_set1_ps f_one) i =
           map (\<lambda>j. product F v t (i + j)) [0..<8]"
  unfolding contrib8_def mm256_loadu_ps_def mm_loadl_epi64_def mm256_cvtepu8_epi32_def
    mm256_cvtepi32_ps_def mm256_min_ps_def mm256_cmp_ps_GE_OQ_def mm256_and_ps_def
    mm256_mul_ps_def mm256_set1_ps_def Let_def
  by (rule nth_equalityI) (simp_all add: active_clamp [OF assms] product_def qualifies_def)

lemma accumulate_0 [simp]: "accumulate F g 0 init = init"
  by (simp add: accumulate_def)

lemma accumulate_Suc [simp]:
  "accumulate F g (Suc m) init = fadd F (accumulate F g m init) (g m)"
  by (simp add: accumulate_def)

lemma scalar_step_product:
  "scalar_step F v t i acc = fadd F acc (product F v t i)"
  by (simp add: scalar_step_def product_def qualifies_def Let_def)

lemma scalar_closed_form:
  "SumActiveBalancesScalar_fmt F v t = accumulate F (product F v t) (Count v) f_zero"
  by (simp add: SumActiveBalancesScalar_fmt_def accumulate_def scalar_step_product [abs_def])

lemma wide_main_loop:
  assumes "fmt_ok FS"
  shows "fold (avx2_double_body FS FD (Balances v) (Active v) (mm256_set1_ps t) (mm256_set1_ps f_one))
           (map (\<lambda>k. k * 8) [0..<m]) (mm256_setzero_pd, mm256_setzero_pd) =
         (map (wide_lane FS FD v t m) [0..<4], map (\<lambda>j. wide_lane FS FD v t m (4 + j)) [0..<4])"
proof (induction m)
  case 0
  show ?case
    by (simp add: mm256_setzero_pd_def wide_lane_def map_replicate_const)
next
  case (Suc m)
  have l: "lower_half (map (\<lambda>j. product FS v t (m * 8 + j)) [0..<8]) =
           map (\<lambda>j. product FS v t (m * 8 + j)) [0..<4]"
    by (simp add: lower_half_def take_map)
  have u: "upper_half (map (\<lambda>j. product FS v t (m * 8 + j)) [0..<8]) =
           map (\<lambda>j. product FS v t (m * 8 + (4 + j))) [0..<4]"
    by (rule nth_equalityI) (simp_all add: upper_half_def)
  show ?case
    unfolding upt_Suc_append [OF le0] map_append fold_append comp_def Suc.IH
    apply (simp add: avx2_double_body_def contrib8_eq [OF assms] l u Let_def
        mm256_add_pd_def mm256_cvtps_pd_def)
    apply (intro conjI nth_equalityI)
       apply (simp_all add: wide_lane_def)
    done
qed

lemma wide_closed_form:
  assumes "fmt_ok FS"
  shows "SumActiveBalancesAvx2_double_fmt FS FD v t =
           fold (avx2_double_tail FD (Balances v) (Active v) t)
             [Count v div 8 * 8..<Count v]
             (wide_hsum FD (wide_lane FS FD v t (Count v div 8)))"
proof -
  have h: "(let acc = mm256_add_pd FD (map (wide_lane FS FD v t m) [0..<4])
                        (map (\<lambda>j. wide_lane FS FD v t m (4 + j)) [0..<4]);
                low = lower_half acc; high = upper_half acc;
                sum' = mm256_add_pd FD low high
            in fadd FD (sum' ! 0) (sum' ! 1)) = wide_hsum FD (wide_lane FS FD v t m)" for m
    unfolding upt_4
    by (simp add: Let_def mm256_add_pd_def lower_half_def upper_half_def wide_hsum_def)
  show ?thesis
    unfolding SumActiveBalancesAvx2_double_fmt_def
    using h [of "Count v div 8"]
    by (simp add: Let_def wide_main_loop [OF assms])
qed

lemma same_main_loop:
  assumes "fmt_ok F"
  shows "fold (avx2_znver2_body F (Balances v) (Active v) (mm256_set1_ps t) (mm256_set1_ps f_one))
           (map (\<lambda>k. k * 16) [0..<m]) (mm256_setzero_ps, mm256_setzero_ps) =
         (map (same_lane F v t m) [0..<8], map (\<lambda>j. same_lane F v t m (8 + j)) [0..<8])"
proof (induction m)
  case 0
  show ?case
    by (simp add: mm256_setzero_ps_def same_lane_def map_replicate_const)
next
  case (Suc m)
  show ?case
    unfolding upt_Suc_append [OF le0] map_append fold_append comp_def Suc.IH
    apply (simp add: avx2_znver2_body_def contrib8_eq [OF assms] Let_def mm256_add_ps_def)
    apply (intro conjI nth_equalityI)
       apply (simp_all add: same_lane_def add.assoc)
    done
qed

lemma same_closed_form:
  assumes "fmt_ok F"
  shows "SumActiveBalancesAvx2_znver2_fmt F v t =
           fold (avx2_znver2_tail F (Balances v) (Active v) t)
             [Count v div 16 * 16..<Count v]
             (same_hsum F (same_lane F v t (Count v div 16)))"
proof -
  have u: "[0..<8] = [0, 1, 2, 3, 4, 5, 6, 7]" by (rule upt_8)
  have h: "(let acc = mm256_add_ps F (map (same_lane F v t m) [0..<8])
                        (map (\<lambda>j. same_lane F v t m (8 + j)) [0..<8]);
                low = lower_half acc; high = upper_half acc;
                sum' = mm256_add_ps F low high;
                sum' = mm_hadd_ps F sum' sum';
                sum' = mm_hadd_ps F sum' sum'
            in sum' ! 0) = same_hsum F (same_lane F v t m)" for m
    unfolding u
    by (simp add: Let_def mm256_add_ps_def lower_half_def upper_half_def same_hsum_def
        mm_hadd_ps_def)
  show ?thesis
    unfolding SumActiveBalancesAvx2_znver2_fmt_def
    using h [of "Count v div 16"]
    by (simp add: Let_def same_main_loop [OF assms])
qed

section \<open>Iteration and accumulation\<close>

lemma fold_upt_invariant:
  assumes "P lo init" "lo \<le> hi"
    and "\<And>i a. lo \<le> i \<Longrightarrow> i < hi \<Longrightarrow> P i a \<Longrightarrow> P (Suc i) (f i a)"
  shows "P hi (fold f [lo..<hi] init)"
  using assms(2,3)
proof (induction hi)
  case 0
  with assms(1) show ?case by simp
next
  case (Suc hi)
  show ?case
  proof (cases "lo \<le> hi")
    case True
    have "P hi (fold f [lo..<hi] init)"
      using True Suc.prems(2) by (intro Suc.IH) simp_all
    then have "P (Suc hi) (f hi (fold f [lo..<hi] init))"
      using True by (intro Suc.prems(2)) simp_all
    then show ?thesis using True by simp
  next
    case False
    with Suc.prems(1) have "lo = Suc hi" by simp
    with assms(1) show ?thesis by simp
  qed
qed

lemma fold_upt_rel:
  assumes "P init" "\<And>i a. lo \<le> i \<Longrightarrow> i < hi \<Longrightarrow> P a \<Longrightarrow> f i a = g i a \<and> P (f i a)"
  shows "fold f [lo..<hi] init = fold g [lo..<hi] init \<and> P (fold f [lo..<hi] init)"
proof (cases "lo \<le> hi")
  case True
  have "fold f [lo..<hi] init = fold g [lo..<hi] init \<and> P (fold g [lo..<hi] init)"
  proof (rule fold_upt_invariant
      [where P = "\<lambda>i a. fold f [lo..<i] init = a \<and> P a" and f = g and init = init])
    show "fold f [lo..<lo] init = init \<and> P init" using assms(1) by simp
    show "lo \<le> hi" by (rule True)
    fix i a assume i: "lo \<le> i" "i < hi" and a: "fold f [lo..<i] init = a \<and> P a"
    from assms(2) [OF i, of a] a have fg: "f i a = g i a" and "P (f i a)" by blast+
    then have "P (g i a)" by simp
    with fg i a show "fold f [lo..<Suc i] init = g i a \<and> P (g i a)" by simp
  qed
  then show ?thesis by simp
next
  case False
  with assms(1) show ?thesis by simp
qed


lemma accumulate_is_fp:
  "fmt_ok F \<Longrightarrow> is_fp F init \<Longrightarrow> is_fp F (accumulate F g m init)"
  by (induction m) (simp_all add: fadd_is_fp)


lemma accumulate_zeros:
  assumes "is_fp F init" "init \<noteq> neg_zero" "\<And>k. k < m \<Longrightarrow> is_zero (g k)"
  shows "accumulate F g m init = init"
  using assms(3) by (induction m) (simp_all add: fadd_zero_right [OF assms(1,2)])

lemma accumulate_rel:
  assumes ok: "fmt_ok F" and init: "is_fp F init" "init \<noteq> neg_zero"
    and g: "\<And>k. k < m \<Longrightarrow> is_fp F (g k) \<and> (g k = g' k \<or> is_zero (g k) \<and> is_zero (g' k))"
  shows "accumulate F g m init = accumulate F g' m init \<and>
         accumulate F g m init \<noteq> neg_zero"
  using g
proof (induction m)
  case 0
  with init show ?case by simp
next
  case (Suc m)
  have "accumulate F g m init = accumulate F g' m init \<and>
         accumulate F g m init \<noteq> neg_zero"
    using Suc.prems by (intro Suc.IH) simp
  then have IH: "accumulate F g m init = accumulate F g' m init"
    "accumulate F g m init \<noteq> neg_zero" by blast+
  have v: "is_fp F (accumulate F g m init)" using ok init(1) by (rule accumulate_is_fp)
  from Suc.prems [of m] have gm: "is_fp F (g m)"
    "g m = g' m \<or> is_zero (g m) \<and> is_zero (g' m)" by simp_all
  have "fadd F (accumulate F g m init) (g m) = fadd F (accumulate F g m init) (g' m)"
    using gm(2) by (auto simp: fadd_zero_right [OF v IH(2)])
  moreover have "fadd F (accumulate F g m init) (g m) \<noteq> neg_zero"
    using v gm(1) ok IH(2) by (rule fadd_neq_neg_zero)
  ultimately show ?case using IH(1) by simp
qed


lemma wf_view_balance:
  "wf_view v \<Longrightarrow> i < Count v \<Longrightarrow> is_fp binary32 (Balances v ! i)"
  by (simp add: wf_view_def list_all_length)

lemma finite_view_balance:
  "wf_view v \<Longrightarrow> finite_view v \<Longrightarrow> i < Count v \<Longrightarrow> is_finite (Balances v ! i)"
  by (simp add: wf_view_def finite_view_def list_all_length)

lemma product_is_fp:
  "is_fp F' (Balances v ! i) \<Longrightarrow> fmt_ok F \<Longrightarrow> is_fp F (product F v t i)"
  unfolding product_def by (rule fmul_is_fp [where F'' = F]) simp_all

lemma product_qualifies:
  "is_fp F (Balances v ! i) \<Longrightarrow> qualifies v t i \<Longrightarrow> product F v t i = Balances v ! i"
  by (simp add: product_def fmul_one)

lemma product_not_qualifies:
  "is_finite (Balances v ! i) \<Longrightarrow> \<not> qualifies v t i \<Longrightarrow> is_zero (product F v t i)"
  by (simp add: product_def fmul_zero)


lemma fcvt_is_zero: "is_zero z \<Longrightarrow> is_zero (fcvt F z)"
  by (auto simp: is_zero_def f_zero_def neg_zero_def fround_def)

lemma fcvt_finite_D: "is_finite (fcvt F x) \<Longrightarrow> is_finite x"
  by (cases x) simp_all

lemma f_zero_neq_neg_zero [simp]: "f_zero \<noteq> neg_zero"
  by (simp add: f_zero_def neg_zero_def)

lemma fadd_zero_zero [simp]: "fadd F f_zero f_zero = f_zero"
  by (simp add: f_zero_def sval_def)

lemma fcvt_zero [simp]: "fcvt F f_zero = f_zero"
  by (simp add: f_zero_def fround_def)

lemma wide_hsum_zero: "(\<And>j. j < 8 \<Longrightarrow> L j = f_zero) \<Longrightarrow> wide_hsum F L = f_zero"
  by (simp add: wide_hsum_def)

lemma same_hsum_zero: "(\<And>j. j < 16 \<Longrightarrow> L j = f_zero) \<Longrightarrow> same_hsum F L = f_zero"
  by (simp add: same_hsum_def)

lemma fold_upt_id:
  "(\<And>i a. lo \<le> i \<Longrightarrow> i < hi \<Longrightarrow> f i a = a) \<Longrightarrow> fold f [lo..<hi] init = init"
proof (induction hi)
  case 0
  then show ?case by simp
next
  case (Suc hi)
  show ?case
  proof (cases "lo \<le> hi")
    case True
    have "fold f [lo..<hi] init = init" using Suc.prems by (intro Suc.IH) simp_all
    then show ?thesis using True Suc.prems [of hi] by simp
  next
    case False
    then show ?thesis by simp
  qed
qed

lemma flt_not_fge: "flt x y \<Longrightarrow> \<not> fge x y"
  by (cases x; cases y) auto

lemma div_mult_le_aux: "k < m \<Longrightarrow> j < w \<Longrightarrow> (m::nat) \<le> n div w \<Longrightarrow> k * w + j < n"
proof -
  assume a: "k < m" "j < w" "m \<le> n div w"
  then have "Suc k \<le> n div w" by simp
  then have "Suc k * w \<le> n div w * w" by (rule mult_le_mono1)
  also have "\<dots> \<le> n" by simp
  finally show ?thesis using a(2) by simp
qed

lemma wide_hsum_cong:
  assumes "\<And>j. j < 8 \<Longrightarrow> L j = L' j"
  shows "wide_hsum F L = wide_hsum F L'"
proof -
  have "L 0 = L' 0" "L 1 = L' 1" "L 2 = L' 2" "L 3 = L' 3"
    "L 4 = L' 4" "L 5 = L' 5" "L 6 = L' 6" "L 7 = L' 7"
    by (rule assms, simp)+
  then show ?thesis by (simp only: wide_hsum_def)
qed

lemma same_hsum_cong:
  assumes "\<And>j. j < 16 \<Longrightarrow> L j = L' j"
  shows "same_hsum F L = same_hsum F L'"
proof -
  have "L 0 = L' 0" "L 1 = L' 1" "L 2 = L' 2" "L 3 = L' 3"
    "L 4 = L' 4" "L 5 = L' 5" "L 6 = L' 6" "L 7 = L' 7"
    "L 8 = L' 8" "L 9 = L' 9" "L 10 = L' 10" "L 11 = L' 11"
    "L 12 = L' 12" "L 13 = L' 13" "L 14 = L' 14" "L 15 = L' 15"
    by (rule assms, simp)+
  then show ?thesis by (simp only: same_hsum_def)
qed

lemma fold_upt_cong:
  assumes "\<And>i a. lo \<le> i \<Longrightarrow> i < hi \<Longrightarrow> f i a = g i a"
  shows "fold f [lo..<hi] init = fold g [lo..<hi] init"
proof (rule fold_cong [OF refl refl])
  fix x assume "x \<in> set [lo..<hi]"
  then have "lo \<le> x" "x < hi" by simp_all
  then show "f x = g x" using assms by (intro ext) simp
qed

text \<open>The repository path against the flat scalar loop.\<close>

lemma fold_nth: "fold f xs s = fold (\<lambda>i. f (xs ! i)) [0..<length xs] s"
proof -
  have "fold (\<lambda>i. f (xs ! i)) [0..<length xs] s = fold f (map (nth xs) [0..<length xs]) s"
    by (simp add: fold_map comp_def)
  then show ?thesis by (simp add: map_nth)
qed

section \<open>Evaluating the examples\<close>

lemma round_mag_binary32_int:
  "0 \<le> m \<Longrightarrow> m < 2 ^ 24 \<Longrightarrow> round_mag binary32 (of_int m) = Some (of_int m)"
  unfolding binary32_def by (rule round_mag_repr [of _ m 0]) simp_all

lemma round_mag_binary64_int:
  "0 \<le> m \<Longrightarrow> m < 2 ^ 53 \<Longrightarrow> round_mag binary64 (of_int m) = Some (of_int m)"
  unfolding binary64_def by (rule round_mag_repr [of _ m 0]) simp_all

lemma round_mag_binary32_numeral [simp]:
  "(numeral k :: int) < 2 ^ 24 \<Longrightarrow> round_mag binary32 (numeral k) = Some (numeral k)"
  using round_mag_binary32_int [of "numeral k"] by simp

lemma round_mag_binary64_numeral [simp]:
  "(numeral k :: int) < 2 ^ 53 \<Longrightarrow> round_mag binary64 (numeral k) = Some (numeral k)"
  using round_mag_binary64_int [of "numeral k"] by simp

lemma wf_view_example: "wf_view view_example"
  by (simp add: wf_view_def view_example_def)

lemma finite_view_example: "finite_view view_example"
  by (simp add: finite_view_def view_example_def)

lemma scalar_example:
  "SumActiveBalancesScalar view_example (FNum False 250) = FNum False 1299"
  by (simp add: SumActiveBalancesScalar_def SumActiveBalancesScalar_fmt_def view_example_def
      upt_4 scalar_step_def Let_def f_one_def f_zero_def sval_def fround_def)

lemma wide_example:
  "SumActiveBalancesAvx2_double view_example (FNum False 250) = FNum False 1299"
  by (simp add: SumActiveBalancesAvx2_double_def wide_closed_form view_example_def
      wide_lane_def wide_hsum_def upt_4 avx2_double_tail_def f_zero_def sval_def fround_def)

lemma same_example:
  "SumActiveBalancesAvx2_znver2 view_example (FNum False 250) = FNum False 1299"
  by (simp add: SumActiveBalancesAvx2_znver2_def same_closed_form view_example_def
      same_lane_def same_hsum_def upt_4 avx2_znver2_tail_def f_zero_def sval_def fround_def)

lemma all_less_4: "(\<forall>i<(4::nat). P i) \<longleftrightarrow> P 0 \<and> P 1 \<and> P 2 \<and> P 3"
proof -
  have "i < 4 \<longleftrightarrow> i = 0 \<or> i = 1 \<or> i = 2 \<or> i = 3" for i :: nat by arith
  then show ?thesis by auto
qed

lemma upt_2_from_0: "[0..<2] = [0, 1]"
  by (simp add: upt_rec)

lemma round_mag_binary32_one [simp]: "round_mag binary32 1 = Some 1"
  by simp

lemma round_mag_binary64_one [simp]: "round_mag binary64 1 = Some 1"
  by simp

lemma narrow_16777217: "round_mag binary32 16777217 = Some 16777216"
  by code_simp

lemma wf_view_example_hidden: "wf_view view_example_hidden"
  by (simp add: wf_view_def view_example_hidden_def)

lemma finite_view_example_hidden: "finite_view view_example_hidden"
  by (simp add: finite_view_def view_example_hidden_def)

lemma same_data_example: "same_data users_of_example view_example"
  by (simp add: same_data_def users_of_example_def view_example_def)

lemma flt_max_eq: "flt_max = of_int 16777215 * pow2 104"
  by (simp add: flt_max_def pow2_def)

lemma round_mag_flt_max [simp]: "round_mag binary32 flt_max = Some flt_max"
  unfolding flt_max_eq binary32_def by (rule round_mag_repr [of _ 16777215 104]) simp_all

lemma round_mag_flt_max_64 [simp]: "round_mag binary64 flt_max = Some flt_max"
  unfolding flt_max_eq binary64_def by (rule round_mag_repr [of _ 16777215 104]) simp_all

lemma round_mag_2flt_max_64 [simp]: "round_mag binary64 (2 * flt_max) = Some (2 * flt_max)"
proof -
  have "2 * flt_max = of_int 16777215 * pow2 105"
    by (simp add: flt_max_def pow2_def)
  then show ?thesis
    unfolding binary64_def by (simp only:) (rule round_mag_repr [of _ 16777215 105], simp_all)
qed


lemma flt_max_pos [simp]: "0 < flt_max" "0 \<le> flt_max" "flt_max \<noteq> 0" "\<not> flt_max < 0"
  "\<not> 2 * flt_max < 0" "2 * flt_max \<noteq> 0"
  by (simp_all add: flt_max_def)



section \<open>The dispatchers\<close>

text \<open>
  Claim C3. Whenever the vector path is not taken, because \<^verbatim>\<open>__AVX2__\<close> is not
  defined, because the compiler is neither Clang nor GCC, or because the CPU reports no
  AVX2, both dispatchers return the very value of the scalar reducer on the same view
  and threshold.
\<close>

theorem dispatcher_fallback_is_scalar:
  assumes "\<not> (AVX2_defined P \<and> (COMPILER_CLANG P \<or> COMPILER_GCC P) \<and> cpu_supports_avx2 P)"
  shows "SumActiveBalances_avx2_double P usersView minimumBalance =
           SumActiveBalancesScalar usersView minimumBalance \<and>
         SumActiveBalances_znver2 P usersView minimumBalance =
           SumActiveBalancesScalar usersView minimumBalance"
  using assms
  by (auto simp: SumActiveBalances_avx2_double_def SumActiveBalances_znver2_def)

theorem dispatcher_fallback_is_scalar_witness:
  "\<not> (AVX2_defined platform_no_cpu_avx2 \<and>
        (COMPILER_CLANG platform_no_cpu_avx2 \<or> COMPILER_GCC platform_no_cpu_avx2) \<and>
        cpu_supports_avx2 platform_no_cpu_avx2) \<and>
   SumActiveBalances_avx2_double platform_no_cpu_avx2 view_example (FNum False 250) =
     SumActiveBalancesScalar view_example (FNum False 250) \<and>
   SumActiveBalances_znver2 platform_no_cpu_avx2 view_example (FNum False 250) =
     SumActiveBalancesScalar view_example (FNum False 250)"
proof -
  have h: "\<not> (AVX2_defined platform_no_cpu_avx2 \<and>
        (COMPILER_CLANG platform_no_cpu_avx2 \<or> COMPILER_GCC platform_no_cpu_avx2) \<and>
        cpu_supports_avx2 platform_no_cpu_avx2)"
    by (simp add: platform_no_cpu_avx2_def)
  show ?thesis
    using h dispatcher_fallback_is_scalar [OF h, of view_example "FNum False 250"]
    by blast
qed

text \<open>
  Claim C2 fails on the program. On two active balances \<open>2^24\<close> and \<open>1\<close> with
  threshold 0 the AVX2 kernel returns the \<^verbatim>\<open>double\<close> \<open>16777217\<close>, and the dispatcher of
  the same binary, whose return type is \<^verbatim>\<open>float\<close>, returns \<open>16777216\<close>.
\<close>

theorem dispatcher_narrows_double_result:
  "SumActiveBalancesAvx2_double view_narrowing (FNum False 0) = FNum False 16777217 \<and>
   SumActiveBalances_avx2_double platform_avx2 view_narrowing (FNum False 0) = FNum False 16777216"
proof -
  have k: "SumActiveBalancesAvx2_double view_narrowing (FNum False 0) = FNum False 16777217"
    by (simp add: SumActiveBalancesAvx2_double_def wide_closed_form view_narrowing_def
      wide_lane_def wide_hsum_def upt_2_from_0 avx2_double_tail_def f_zero_def sval_def fround_def)
  have "fcvt binary32 (FNum False 16777217) = FNum False 16777216"
    by (simp add: fround_def narrow_16777217)
  with k show ?thesis
    by (simp add: SumActiveBalances_avx2_double_def platform_avx2_def)
qed

section \<open>Lookup by identifier\<close>

lemma FindById_None_iff:
  "FindById Users id' = None \<longleftrightarrow> (\<forall>u \<in> set Users. User_Id u \<noteq> id')"
  by (induction Users) auto

lemma FindById_Some_iff:
  "FindById Users id' = Some u \<longleftrightarrow>
     (\<exists>i < length Users. u = Users ! i \<and> User_Id u = id' \<and>
        (\<forall>j < i. User_Id (Users ! j) \<noteq> id'))"
proof (induction Users)
  case Nil
  show ?case by simp
next
  case (Cons x xs)
  show ?case
  proof (cases "User_Id x = id'")
    case True
    have "(\<exists>i < length (x # xs). u = (x # xs) ! i \<and> User_Id u = id' \<and>
             (\<forall>j < i. User_Id ((x # xs) ! j) \<noteq> id')) \<longleftrightarrow> u = x"
    proof
      assume "\<exists>i < length (x # xs). u = (x # xs) ! i \<and> User_Id u = id' \<and>
                (\<forall>j < i. User_Id ((x # xs) ! j) \<noteq> id')"
      then obtain i where i: "u = (x # xs) ! i" "\<forall>j < i. User_Id ((x # xs) ! j) \<noteq> id'"
        by blast
      have "i = 0"
      proof (rule ccontr)
        assume "i \<noteq> 0"
        then have "0 < i" by simp
        with i(2) have "User_Id ((x # xs) ! 0) \<noteq> id'" by blast
        with True show False by simp
      qed
      with i(1) show "u = x" by simp
    next
      assume "u = x"
      with True show "\<exists>i < length (x # xs). u = (x # xs) ! i \<and> User_Id u = id' \<and>
                (\<forall>j < i. User_Id ((x # xs) ! j) \<noteq> id')"
        by (intro exI [of _ 0]) simp
    qed
    with True show ?thesis by auto
  next
    case False
    have "(\<exists>i < length (x # xs). u = (x # xs) ! i \<and> User_Id u = id' \<and>
             (\<forall>j < i. User_Id ((x # xs) ! j) \<noteq> id')) \<longleftrightarrow>
          (\<exists>i < length xs. u = xs ! i \<and> User_Id u = id' \<and>
             (\<forall>j < i. User_Id (xs ! j) \<noteq> id'))"
      (is "?L \<longleftrightarrow> ?R")
    proof
      assume ?L
      then obtain i where i: "i < length (x # xs)" "u = (x # xs) ! i" "User_Id u = id'"
        "\<forall>j < i. User_Id ((x # xs) ! j) \<noteq> id'"
        by blast
      from i(2,3) False have "i \<noteq> 0" by (cases i) auto
      then obtain k where k: "i = Suc k" by (cases i) auto
      have "\<forall>j < k. User_Id (xs ! j) \<noteq> id'"
      proof (intro allI impI)
        fix j assume "j < k"
        then have "Suc j < i" using k by simp
        with i(4) have "User_Id ((x # xs) ! Suc j) \<noteq> id'" by blast
        then show "User_Id (xs ! j) \<noteq> id'" by simp
      qed
      with i k show ?R by (intro exI [of _ k]) simp
    next
      assume ?R
      then obtain k where k: "k < length xs" "u = xs ! k" "User_Id u = id'"
        "\<forall>j < k. User_Id (xs ! j) \<noteq> id'"
        by blast
      have "\<forall>j < Suc k. User_Id ((x # xs) ! j) \<noteq> id'"
      proof (intro allI impI)
        fix j assume "j < Suc k"
        then show "User_Id ((x # xs) ! j) \<noteq> id'"
          using False k(4) by (cases j) auto
      qed
      with k show ?L by (intro exI [of _ "Suc k"]) simp
    qed
    with False Cons.IH show ?thesis by simp
  qed
qed

text \<open>
  Claim C9. \<^verbatim>\<open>FindById\<close> returns the first record in storage order whose \<^verbatim>\<open>Id\<close>
  equals the argument: it returns \<open>Some u\<close> exactly when \<open>u\<close> is the record at an
  index \<open>i\<close> with that \<^verbatim>\<open>Id\<close> and no record before \<open>i\<close> has it; and it returns the empty
  optional exactly when no stored record has that \<^verbatim>\<open>Id\<close>.
\<close>

theorem FindById_first_match:
  "(FindById Users id' = None \<longleftrightarrow> (\<forall>u \<in> set Users. User_Id u \<noteq> id')) \<and>
   (\<forall>u. FindById Users id' = Some u \<longleftrightarrow>
      (\<exists>i < length Users. u = Users ! i \<and> User_Id u = id' \<and>
         (\<forall>j < i. User_Id (Users ! j) \<noteq> id')))"
  using FindById_None_iff FindById_Some_iff by blast

theorem FindById_first_match_witness:
  "FindById users_example 7 = Some (users_example ! 0) \<and>
   User_Id (users_example ! 0) = 7 \<and>
   User_Id (users_example ! 2) = 7 \<and>
   FindById users_example 5 = None"
proof -
  have a: "FindById users_example 7 = Some (users_example ! 0)"
    by (simp add: users_example_def)
  have b: "FindById users_example 5 = None"
    by (simp add: users_example_def)
  have c: "User_Id (users_example ! 2) = 7"
    by (simp add: users_example_def)
  from FindById_first_match [of users_example 7] a
  have "User_Id (users_example ! 0) = 7" by blast
  with a b c show ?thesis by blast
qed

section \<open>The zero cases\<close>

text \<open>No element qualifies: every reducer returns \<open>+0\<close>.\<close>

lemma scalar_none_qualifies:
  assumes "\<And>i. i < Count v \<Longrightarrow> is_finite (Balances v ! i) \<and> \<not> qualifies v t i"
  shows "SumActiveBalancesScalar_fmt F v t = f_zero"
  unfolding scalar_closed_form
  using assms by (intro accumulate_zeros) (simp_all add: product_not_qualifies)

lemma wide_none_qualifies:
  assumes "\<And>i. i < Count v \<Longrightarrow> is_finite (Balances v ! i) \<and> \<not> qualifies v t i" "fmt_ok FS"
  shows "SumActiveBalancesAvx2_double_fmt FS FD v t = f_zero"
proof -
  have "wide_lane FS FD v t (Count v div 8) j = f_zero" if "j < 8" for j
    unfolding wide_lane_def
  proof (rule accumulate_zeros)
    fix k assume "k < Count v div 8"
    with that have "k * 8 + j < Count v" by (intro div_mult_le_aux [of k "Count v div 8"]) simp_all
    with assms(1) show "is_zero (fcvt FD (product FS v t (k * 8 + j)))"
      by (intro fcvt_is_zero product_not_qualifies) simp_all
  qed simp_all
  then have "wide_hsum FD (wide_lane FS FD v t (Count v div 8)) = f_zero"
    by (rule wide_hsum_zero)
  moreover have "fold (avx2_double_tail FD (Balances v) (Active v) t)
             [Count v div 8 * 8..<Count v] f_zero = f_zero"
    using assms(1) by (intro fold_upt_id) (auto simp: avx2_double_tail_def qualifies_def)
  ultimately show ?thesis by (simp add: wide_closed_form [OF assms(2)])
qed

lemma same_none_qualifies:
  assumes "\<And>i. i < Count v \<Longrightarrow> is_finite (Balances v ! i) \<and> \<not> qualifies v t i" "fmt_ok F"
  shows "SumActiveBalancesAvx2_znver2_fmt F v t = f_zero"
proof -
  have "same_lane F v t (Count v div 16) j = f_zero" if "j < 16" for j
    unfolding same_lane_def
  proof (rule accumulate_zeros)
    fix k assume "k < Count v div 16"
    with that have "k * 16 + j < Count v" by (intro div_mult_le_aux [of k "Count v div 16"]) simp_all
    with assms(1) show "is_zero (product F v t (k * 16 + j))"
      by (intro product_not_qualifies) simp_all
  qed simp_all
  then have "same_hsum F (same_lane F v t (Count v div 16)) = f_zero"
    by (rule same_hsum_zero)
  moreover have "fold (avx2_znver2_tail F (Balances v) (Active v) t)
             [Count v div 16 * 16..<Count v] f_zero = f_zero"
    using assms(1) by (intro fold_upt_id) (auto simp: avx2_znver2_tail_def qualifies_def)
  ultimately show ?thesis by (simp add: same_closed_form [OF assms(2)])
qed

text \<open>
  Claim C8, amended. With a count of 0 every reducer and both dispatchers return
  \<open>+0\<close>. With a threshold greater than every balance, or with every activity byte 0,
  they return \<open>+0\<close> when all balances are finite.
\<close>

theorem zero_cases:
  assumes wf: "wf_view v"
    and h: "Count v = 0 \<or>
            finite_view v \<and>
            ((\<forall>i<Count v. flt (Balances v ! i) t) \<or> (\<forall>i<Count v. Active v ! i = 0))"
  shows "SumActiveBalancesScalar v t = f_zero \<and>
         SumActiveBalancesAvx2_double v t = f_zero \<and>
         SumActiveBalancesAvx2_znver2 v t = f_zero \<and>
         SumActiveBalances_avx2_double P v t = f_zero \<and>
         SumActiveBalances_znver2 P v t = f_zero"
proof -
  have nq: "is_finite (Balances v ! i) \<and> \<not> qualifies v t i" if "i < Count v" for i
    using h that wf by (auto simp: qualifies_def flt_not_fge finite_view_balance)
  have 1: "SumActiveBalancesScalar v t = f_zero"
    unfolding SumActiveBalancesScalar_def using nq by (rule scalar_none_qualifies)
  have 2: "SumActiveBalancesAvx2_double v t = f_zero"
    unfolding SumActiveBalancesAvx2_double_def
    by (rule wide_none_qualifies [OF nq fmt_ok_binary32])
  have 3: "SumActiveBalancesAvx2_znver2 v t = f_zero"
    unfolding SumActiveBalancesAvx2_znver2_def
    by (rule same_none_qualifies [OF nq fmt_ok_binary32])
  from 1 2 3 show ?thesis
    by (simp add: SumActiveBalances_avx2_double_def SumActiveBalances_znver2_def)
qed

theorem zero_cases_witness:
  "wf_view view_example \<and> finite_view view_example \<and>
   list_all (\<lambda>b. flt b (FNum False 1000)) (Balances view_example) \<and>
   SumActiveBalancesScalar view_example (FNum False 1000) = f_zero \<and>
   SumActiveBalancesAvx2_double view_example (FNum False 1000) = f_zero \<and>
   SumActiveBalancesAvx2_znver2 view_example (FNum False 1000) = f_zero \<and>
   SumActiveBalances_avx2_double platform_avx2 view_example (FNum False 1000) = f_zero \<and>
   SumActiveBalances_znver2 platform_avx2 view_example (FNum False 1000) = f_zero"
proof -
  have l: "list_all (\<lambda>b. flt b (FNum False 1000)) (Balances view_example)"
    by (simp add: view_example_def sval_def)
  then have "\<forall>i<Count view_example. flt (Balances view_example ! i) (FNum False 1000)"
    using wf_view_example by (simp add: list_all_length wf_view_def)
  then have "Count view_example = 0 \<or>
            finite_view view_example \<and>
            ((\<forall>i<Count view_example. flt (Balances view_example ! i) (FNum False 1000)) \<or>
             (\<forall>i<Count view_example. Active view_example ! i = 0))"
    using finite_view_example by blast
  from zero_cases [OF wf_view_example this, of platform_avx2] l wf_view_example finite_view_example
  show ?thesis by blast
qed

text \<open>
  Claim C8 as stated fails: one element with activity byte 0 and balance \<open>+\<infinity>\<close> makes
  the scalar reducer return a NaN, since the loop adds \<open>\<infinity> * 0\<close>.
\<close>

theorem zero_cases_counterexample:
  "wf_view view_inactive_inf \<and> list_all (\<lambda>a. a = 0) (Active view_inactive_inf) \<and>
   SumActiveBalancesScalar view_inactive_inf (FNum False 250) = FNaN"
  by (simp add: wf_view_def view_inactive_inf_def SumActiveBalancesScalar_def
      SumActiveBalancesScalar_fmt_def scalar_step_def Let_def f_zero_def)

section \<open>Balances of inactive elements\<close>

text \<open>Balances of inactive elements do not reach the result when they are finite.\<close>

lemma product_rel:
  assumes wf: "is_fp F' (Balances v ! i)" "is_finite (Balances v ! i)"
    "is_finite (Balances v' ! i)"
    and a: "Active v' = Active v" "Active v ! i \<noteq> 0 \<Longrightarrow> Balances v' ! i = Balances v ! i"
    and ok: "fmt_ok F"
  shows "is_fp F (product F v t i) \<and>
         (product F v t i = product F v' t i \<or>
          is_zero (product F v t i) \<and> is_zero (product F v' t i))"
proof (cases "Active v ! i = 0")
  case True
  then have "\<not> qualifies v t i" "\<not> qualifies v' t i" by (simp_all add: qualifies_def a(1))
  with wf(2,3) have "is_zero (product F v t i)" "is_zero (product F v' t i)"
    by (simp_all add: product_not_qualifies)
  then show ?thesis using product_is_fp [OF wf(1) ok, of t] by blast
next
  case False
  with a(2) have "Balances v' ! i = Balances v ! i" by simp
  then have "product F v t i = product F v' t i"
    by (simp add: product_def qualifies_def a(1))
  then show ?thesis using product_is_fp [OF wf(1) ok, of t] by blast
qed

lemma tail_rel:
  assumes "Active v' = Active v" "Active v ! i \<noteq> 0 \<Longrightarrow> Balances v' ! i = Balances v ! i"
  shows "avx2_double_tail FD (Balances v') (Active v') t i a =
           avx2_double_tail FD (Balances v) (Active v) t i a"
    "avx2_znver2_tail F (Balances v') (Active v') t i a =
           avx2_znver2_tail F (Balances v) (Active v) t i a"
  using assms by (auto simp: avx2_double_tail_def avx2_znver2_tail_def)

lemma scalar_inactive_irrelevant:
  assumes "\<And>i. i < Count v \<Longrightarrow>
             is_fp F' (Balances v ! i) \<and> is_finite (Balances v ! i) \<and>
             is_finite (Balances v' ! i) \<and>
             (Active v ! i \<noteq> 0 \<longrightarrow> Balances v' ! i = Balances v ! i)"
    and "Count v' = Count v" "Active v' = Active v" "fmt_ok F"
  shows "SumActiveBalancesScalar_fmt F v t = SumActiveBalancesScalar_fmt F v' t"
  unfolding scalar_closed_form assms(2)
proof (rule accumulate_rel [THEN conjunct1])
  fix k assume "k < Count v"
  from assms(1) [OF this] have h: "is_fp F' (Balances v ! k)" "is_finite (Balances v ! k)"
    "is_finite (Balances v' ! k)" "Active v ! k \<noteq> 0 \<Longrightarrow> Balances v' ! k = Balances v ! k"
    by blast+
  from h(1,2,3) assms(3) h(4) assms(4)
  show "is_fp F (product F v t k) \<and>
         (product F v t k = product F v' t k \<or>
          is_zero (product F v t k) \<and> is_zero (product F v' t k))"
    by (rule product_rel)
qed (simp_all add: assms(4))

lemma wide_inactive_irrelevant:
  assumes "\<And>i. i < Count v \<Longrightarrow>
             is_fp F' (Balances v ! i) \<and> is_finite (Balances v ! i) \<and>
             is_finite (Balances v' ! i) \<and>
             (Active v ! i \<noteq> 0 \<longrightarrow> Balances v' ! i = Balances v ! i)"
    and "Count v' = Count v" "Active v' = Active v" "fmt_ok FS" "fmt_ok FD"
  shows "SumActiveBalancesAvx2_double_fmt FS FD v t = SumActiveBalancesAvx2_double_fmt FS FD v' t"
proof -
  have "wide_lane FS FD v t (Count v div 8) j = wide_lane FS FD v' t (Count v div 8) j"
    if "j < 8" for j
    unfolding wide_lane_def
  proof (rule accumulate_rel [THEN conjunct1])
    fix k assume "k < Count v div 8"
    with that have "k * 8 + j < Count v" by (intro div_mult_le_aux [of k "Count v div 8"]) simp_all
    from assms(1) [OF this] have h: "is_fp F' (Balances v ! (k * 8 + j))"
      "is_finite (Balances v ! (k * 8 + j))" "is_finite (Balances v' ! (k * 8 + j))"
      "Active v ! (k * 8 + j) \<noteq> 0 \<Longrightarrow> Balances v' ! (k * 8 + j) = Balances v ! (k * 8 + j)"
      by blast+
    from h(1,2,3) assms(3) h(4) assms(4)
    have "is_fp FS (product FS v t (k * 8 + j)) \<and>
         (product FS v t (k * 8 + j) = product FS v' t (k * 8 + j) \<or>
          is_zero (product FS v t (k * 8 + j)) \<and> is_zero (product FS v' t (k * 8 + j)))"
      by (rule product_rel)
    then show "is_fp FD (fcvt FD (product FS v t (k * 8 + j))) \<and>
         (fcvt FD (product FS v t (k * 8 + j)) = fcvt FD (product FS v' t (k * 8 + j)) \<or>
          is_zero (fcvt FD (product FS v t (k * 8 + j))) \<and>
          is_zero (fcvt FD (product FS v' t (k * 8 + j))))"
      using assms(5) by (auto intro: fcvt_is_fp fcvt_is_zero)
  qed (simp_all add: assms(5))
  then have "wide_hsum FD (wide_lane FS FD v t (Count v div 8)) =
             wide_hsum FD (wide_lane FS FD v' t (Count v div 8))"
    by (rule wide_hsum_cong)
  moreover have "fold (avx2_double_tail FD (Balances v) (Active v) t) [lo..<Count v] a =
                 fold (avx2_double_tail FD (Balances v') (Active v') t) [lo..<Count v] a" for lo a
  proof (rule fold_upt_cong)
    fix i b assume "i < Count v"
    from assms(1) [OF this] show "avx2_double_tail FD (Balances v) (Active v) t i b =
        avx2_double_tail FD (Balances v') (Active v') t i b"
      by (intro tail_rel(1) [symmetric] assms(3)) simp
  qed
  ultimately show ?thesis
    by (simp only: wide_closed_form [OF assms(4)] assms(2))
qed

lemma same_inactive_irrelevant:
  assumes "\<And>i. i < Count v \<Longrightarrow>
             is_fp F' (Balances v ! i) \<and> is_finite (Balances v ! i) \<and>
             is_finite (Balances v' ! i) \<and>
             (Active v ! i \<noteq> 0 \<longrightarrow> Balances v' ! i = Balances v ! i)"
    and "Count v' = Count v" "Active v' = Active v" "fmt_ok F"
  shows "SumActiveBalancesAvx2_znver2_fmt F v t = SumActiveBalancesAvx2_znver2_fmt F v' t"
proof -
  have "same_lane F v t (Count v div 16) j = same_lane F v' t (Count v div 16) j"
    if "j < 16" for j
    unfolding same_lane_def
  proof (rule accumulate_rel [THEN conjunct1])
    fix k assume "k < Count v div 16"
    with that have "k * 16 + j < Count v" by (intro div_mult_le_aux [of k "Count v div 16"]) simp_all
    from assms(1) [OF this] have h: "is_fp F' (Balances v ! (k * 16 + j))"
      "is_finite (Balances v ! (k * 16 + j))" "is_finite (Balances v' ! (k * 16 + j))"
      "Active v ! (k * 16 + j) \<noteq> 0 \<Longrightarrow> Balances v' ! (k * 16 + j) = Balances v ! (k * 16 + j)"
      by blast+
    from h(1,2,3) assms(3) h(4) assms(4)
    show "is_fp F (product F v t (k * 16 + j)) \<and>
         (product F v t (k * 16 + j) = product F v' t (k * 16 + j) \<or>
          is_zero (product F v t (k * 16 + j)) \<and> is_zero (product F v' t (k * 16 + j)))"
      by (rule product_rel)
  qed (simp_all add: assms(4))
  then have "same_hsum F (same_lane F v t (Count v div 16)) =
             same_hsum F (same_lane F v' t (Count v div 16))"
    by (rule same_hsum_cong)
  moreover have "fold (avx2_znver2_tail F (Balances v) (Active v) t) [lo..<Count v] a =
                 fold (avx2_znver2_tail F (Balances v') (Active v') t) [lo..<Count v] a" for lo a
  proof (rule fold_upt_cong)
    fix i b assume "i < Count v"
    from assms(1) [OF this] show "avx2_znver2_tail F (Balances v) (Active v) t i b =
        avx2_znver2_tail F (Balances v') (Active v') t i b"
      by (intro tail_rel(2) [symmetric] assms(3)) simp
  qed
  ultimately show ?thesis
    by (simp only: same_closed_form [OF assms(4)] assms(2))
qed

text \<open>
  Claim C10. Two views with the same count and the same activity bytes, all balances
  finite, that agree on the balance at every index with a nonzero byte, give the
  identical result in the scalar reducer and in both AVX2 kernels.
\<close>

theorem inactive_balances_do_not_influence:
  assumes "wf_view v" "wf_view v'" "finite_view v" "finite_view v'"
    and "Count v' = Count v" "Active v' = Active v"
    and "\<forall>i<Count v. Active v ! i \<noteq> 0 \<longrightarrow> Balances v' ! i = Balances v ! i"
  shows "SumActiveBalancesScalar v t = SumActiveBalancesScalar v' t \<and>
         SumActiveBalancesAvx2_double v t = SumActiveBalancesAvx2_double v' t \<and>
         SumActiveBalancesAvx2_znver2 v t = SumActiveBalancesAvx2_znver2 v' t"
proof -
  have h: "is_fp binary32 (Balances v ! i) \<and> is_finite (Balances v ! i) \<and>
             is_finite (Balances v' ! i) \<and>
             (Active v ! i \<noteq> 0 \<longrightarrow> Balances v' ! i = Balances v ! i)" if "i < Count v" for i
    using that assms
    by (simp add: wf_view_balance finite_view_balance)
  have 1: "SumActiveBalancesScalar v t = SumActiveBalancesScalar v' t"
    unfolding SumActiveBalancesScalar_def
    using h assms(5,6) fmt_ok_binary32 by (rule scalar_inactive_irrelevant)
  have 2: "SumActiveBalancesAvx2_double v t = SumActiveBalancesAvx2_double v' t"
    unfolding SumActiveBalancesAvx2_double_def
    using h assms(5,6) fmt_ok_binary32 fmt_ok_binary64 by (rule wide_inactive_irrelevant)
  have 3: "SumActiveBalancesAvx2_znver2 v t = SumActiveBalancesAvx2_znver2 v' t"
    unfolding SumActiveBalancesAvx2_znver2_def
    using h assms(5,6) fmt_ok_binary32 by (rule same_inactive_irrelevant)
  from 1 2 3 show ?thesis by blast
qed

theorem inactive_balances_do_not_influence_witness:
  "Balances view_example_hidden ! 2 = FNum False 777 \<and>
   Balances view_example ! 2 = FNum False 250 \<and>
   SumActiveBalancesScalar view_example_hidden (FNum False 250) = FNum False 1299 \<and>
   SumActiveBalancesAvx2_double view_example_hidden (FNum False 250) = FNum False 1299 \<and>
   SumActiveBalancesAvx2_znver2 view_example_hidden (FNum False 250) = FNum False 1299"
proof -
  have 1: "Count view_example_hidden = Count view_example"
    and 2: "Active view_example_hidden = Active view_example"
    by (simp_all add: view_example_hidden_def view_example_def)
  have 3: "\<forall>i<Count view_example. Active view_example ! i \<noteq> 0 \<longrightarrow>
             Balances view_example_hidden ! i = Balances view_example ! i"
    by (simp add: view_example_hidden_def view_example_def all_less_4)
  have 4: "Balances view_example_hidden ! 2 = FNum False 777"
    "Balances view_example ! 2 = FNum False 250"
    by (simp_all add: view_example_hidden_def view_example_def)
  note t = inactive_balances_do_not_influence [OF wf_view_example wf_view_example_hidden
      finite_view_example finite_view_example_hidden 1 2 3, of "FNum False 250"]
  have "SumActiveBalancesScalar view_example_hidden (FNum False 250) = FNum False 1299"
    using t scalar_example by auto
  moreover have "SumActiveBalancesAvx2_double view_example_hidden (FNum False 250) = FNum False 1299"
    using t wide_example by auto
  moreover have "SumActiveBalancesAvx2_znver2 view_example_hidden (FNum False 250) = FNum False 1299"
    using t same_example by auto
  ultimately show ?thesis using 4 by blast
qed

section \<open>The repository path and the flat loop\<close>

lemma same_data_index:
  assumes "same_data users v" "i < length users"
  shows "Balances v ! i = User_Balance (users ! i)"
    "qualifies v t i = Qualifies (users ! i) t"
proof -
  from assms show b: "Balances v ! i = User_Balance (users ! i)"
    by (simp add: same_data_def)
  from assms have "(Active v ! i \<noteq> 0) = User_Active (users ! i)"
    by (auto simp: same_data_def list_all2_conv_all_nth)
  then show "qualifies v t i = Qualifies (users ! i) t"
    by (simp add: qualifies_def Qualifies_def b)
qed

lemma repository_eq_scalar:
  assumes sd: "same_data users v" and ok: "fmt_ok F"
    and b: "\<And>i. i < length users \<Longrightarrow>
               is_fp F (User_Balance (users ! i)) \<and> is_finite (User_Balance (users ! i))"
  shows "SumActiveBalances_repository_fmt F users t = SumActiveBalancesScalar_fmt F v t"
proof -
  have n: "Count v = length users" using sd by (simp add: same_data_def)
  have "fold (\<lambda>i a. if Qualifies (users ! i) t then fadd F a (User_Balance (users ! i)) else a)
          [0..<length users] f_zero =
        fold (scalar_step F v t) [0..<length users] f_zero \<and>
        (is_fp F (fold (\<lambda>i a. if Qualifies (users ! i) t then fadd F a (User_Balance (users ! i)) else a)
          [0..<length users] f_zero) \<and>
         fold (\<lambda>i a. if Qualifies (users ! i) t then fadd F a (User_Balance (users ! i)) else a)
          [0..<length users] f_zero \<noteq> neg_zero)"
  proof (rule fold_upt_rel [where P = "\<lambda>a. is_fp F a \<and> a \<noteq> neg_zero"])
    show "is_fp F f_zero \<and> f_zero \<noteq> neg_zero" by simp
  next
    fix i a assume i: "i < length users" and a: "is_fp F a \<and> a \<noteq> neg_zero"
    note d = same_data_index(1) [OF sd i] same_data_index(2) [OF sd i, of t]
    from b [OF i] have v: "is_fp F (Balances v ! i)" "is_finite (Balances v ! i)"
      by (simp_all add: d(1))
    show "(if Qualifies (users ! i) t then fadd F a (User_Balance (users ! i)) else a) =
            scalar_step F v t i a \<and>
          is_fp F (if Qualifies (users ! i) t then fadd F a (User_Balance (users ! i)) else a) \<and>
          (if Qualifies (users ! i) t then fadd F a (User_Balance (users ! i)) else a) \<noteq> neg_zero"
    proof (cases "qualifies v t i")
      case True
      then have "product F v t i = Balances v ! i" using v(1) by (simp add: product_qualifies)
      moreover have "fadd F a (Balances v ! i) \<noteq> neg_zero"
        using a v(1) ok by (intro fadd_neq_neg_zero) simp_all
      ultimately show ?thesis using True ok
        by (simp add: scalar_step_product d [symmetric] fadd_is_fp)
    next
      case False
      then have "is_zero (product F v t i)" using v(2) by (simp add: product_not_qualifies)
      then have "fadd F a (product F v t i) = a" using a by (intro fadd_zero_right) simp_all
      then show ?thesis using False a
        by (simp add: scalar_step_product d [symmetric])
    qed
  qed
  then show ?thesis
    by (simp add: SumActiveBalances_repository_fmt_def ForEach_def SumActiveBalancesScalar_fmt_def n
        fold_nth [of _ users])
qed

text \<open>
  Claim C6, amended. When every balance is finite, the filtered sum over the
  repository is the same \<^verbatim>\<open>float\<close> as the flat scalar loop over the view that holds
  the same records.
\<close>

theorem repository_sum_eq_flat_sum:
  assumes "same_data users v" "wf_view v" "finite_view v"
  shows "SumActiveBalances_repository users t = SumActiveBalances_dod v t \<and>
         SumActiveBalances_dod v t = SumActiveBalancesScalar v t"
proof -
  have n: "Count v = length users" using assms(1) by (simp add: same_data_def)
  have "is_fp binary32 (User_Balance (users ! i)) \<and> is_finite (User_Balance (users ! i))"
    if "i < length users" for i
    using wf_view_balance [OF assms(2), of i] finite_view_balance [OF assms(2,3), of i] that
      same_data_index(1) [OF assms(1) that] n by simp
  with assms(1) fmt_ok_binary32
  have "SumActiveBalances_repository_fmt binary32 users t = SumActiveBalancesScalar_fmt binary32 v t"
    by (rule repository_eq_scalar)
  then show ?thesis
    by (simp add: SumActiveBalances_repository_def SumActiveBalances_dod_def
        SumActiveBalancesScalar_def SumActiveBalancesScalar_fmt_def)
qed

theorem repository_sum_eq_flat_sum_witness:
  "same_data users_of_example view_example \<and>
   SumActiveBalances_repository users_of_example (FNum False 250) = FNum False 1299 \<and>
   SumActiveBalances_dod view_example (FNum False 250) = FNum False 1299"
  using repository_sum_eq_flat_sum [OF same_data_example wf_view_example finite_view_example,
      of "FNum False 250"] scalar_example same_data_example
  by simp

text \<open>
  Claim C6 as stated fails: for one inactive record with balance \<open>+\<infinity>\<close> the repository
  path skips the record and returns \<open>+0\<close>, the flat loop adds \<open>\<infinity> * 0\<close> and returns a NaN.
\<close>

theorem repository_sum_eq_flat_sum_counterexample:
  "same_data users_inactive_inf view_inactive_inf \<and>
   SumActiveBalances_repository users_inactive_inf (FNum False 250) = f_zero \<and>
   SumActiveBalances_dod view_inactive_inf (FNum False 250) = FNaN"
  by (simp add: same_data_def users_inactive_inf_def view_inactive_inf_def
      SumActiveBalances_repository_def SumActiveBalances_repository_fmt_def ForEach_def
      Qualifies_def SumActiveBalances_dod_def scalar_step_def Let_def f_zero_def)

section \<open>Error bounds and exact arithmetic of the three reducers\<close>






























section \<open>Nonzero activity bytes\<close>





















section \<open>The scalar tails\<close>

text \<open>The kernel on the whole view is the tail loop run on the result for the full groups.\<close>

lemma product_Count_update [simp]: "product F (v\<lparr>Count := n\<rparr>) t i = product F v t i"
  by (simp add: product_def qualifies_def)

lemma wide_lane_Count_update [simp]:
  "wide_lane FS FD (v\<lparr>Count := n\<rparr>) t m = wide_lane FS FD v t m"
  by (rule ext) (simp add: wide_lane_def)

lemma same_lane_Count_update [simp]:
  "same_lane F (v\<lparr>Count := n\<rparr>) t m = same_lane F v t m"
  by (rule ext) (simp add: same_lane_def)














section \<open>Permutations of a view\<close>















end
